theory Spec2Isabelle
  imports Main "HOL-Library.Word" "HOL-Library.Monad_Syntax"
begin

unbundle bit_operations_syntax

section \<open>The grid\<close>

text \<open>
  The program fixes the grid size by the macros \<open>MAZE_W\<close> and \<open>MAZE_H\<close>. The model
  takes the two sizes as the parameters \<open>W\<close> and \<open>H\<close> of every function that uses the
  macros; \<open>MAZE_W\<close> and \<open>MAZE_H\<close> below are the values the source gives them.
  Coordinates are C \<open>int\<close>s, modelled as \<open>int\<close>, which does not overflow. The theorems
  bound the cells they speak about by the grid: a coordinate the program then computes
  differs by at most one from a coordinate of a cell, so that no addition overflows in C
  either.
\<close>

definition MAZE_W :: nat where
  "MAZE_W = 21"

definition MAZE_H :: nat where
  "MAZE_H = 15"

type_synonym u8 = "8 word"

definition WALL_N :: u8 where
  "WALL_N = 1"

definition WALL_E :: u8 where
  "WALL_E = 2"

definition WALL_S :: u8 where
  "WALL_S = 4"

definition WALL_W :: u8 where
  "WALL_W = 8"

record Cell =
  walls :: u8
  visited :: bool

text \<open>
  The array \<open>g[MAZE_H][MAZE_W]\<close>: a list of rows, \<open>g[y][x]\<close> is column \<open>x\<close> of row \<open>y\<close>.
  A read or a write outside the array is undefined behaviour in C; the model makes it
  the result \<open>None\<close>, and every function that touches the array returns an option.
\<close>

type_synonym Grid = "Cell list list"

type_synonym P = "int \<times> int"

definition in_bounds :: "nat \<Rightarrow> nat \<Rightarrow> int \<Rightarrow> int \<Rightarrow> bool" where
  "in_bounds W H x y = (x \<ge> 0 \<and> x < int W \<and> y \<ge> 0 \<and> y < int H)"

definition in_array :: "Grid \<Rightarrow> int \<Rightarrow> int \<Rightarrow> bool" where
  "in_array g x y = (0 \<le> y \<and> nat y < length g \<and> 0 \<le> x \<and> nat x < length (g ! nat y))"

definition cell_at :: "Grid \<Rightarrow> int \<Rightarrow> int \<Rightarrow> Cell" where
  "cell_at g x y = g ! nat y ! nat x"

definition cell_get :: "Grid \<Rightarrow> int \<Rightarrow> int \<Rightarrow> Cell option" where
  "cell_get g x y = (if in_array g x y then Some (cell_at g x y) else None)"

definition cell_set :: "Grid \<Rightarrow> int \<Rightarrow> int \<Rightarrow> Cell \<Rightarrow> Grid option" where
  "cell_set g x y c =
     (if in_array g x y then Some (g[nat y := (g ! nat y)[nat x := c]]) else None)"

text \<open>\<open>g[y][x].walls &= ~b\<close>: the promoted operands are truncated back to eight bits.\<close>

definition clear_wall :: "Grid \<Rightarrow> int \<Rightarrow> int \<Rightarrow> u8 \<Rightarrow> Grid option" where
  "clear_wall g x y b =
     do { c \<leftarrow> cell_get g x y; cell_set g x y (c\<lparr>walls := walls c AND NOT b\<rparr>) }"

text \<open>\<open>g[y][x].visited = v\<close>\<close>

definition set_visited :: "Grid \<Rightarrow> int \<Rightarrow> int \<Rightarrow> bool \<Rightarrow> Grid option" where
  "set_visited g x y v =
     do { c \<leftarrow> cell_get g x y; cell_set g x y (c\<lparr>visited := v\<rparr>) }"

definition knock_down :: "Grid \<Rightarrow> int \<Rightarrow> int \<Rightarrow> int \<Rightarrow> int \<Rightarrow> Grid option" where
  "knock_down g x y nx ny =
     (if nx = x \<and> ny = y - 1 then
        do { g1 \<leftarrow> clear_wall g x y WALL_N; clear_wall g1 nx ny WALL_S }
      else if nx = x + 1 \<and> ny = y then
        do { g1 \<leftarrow> clear_wall g x y WALL_E; clear_wall g1 nx ny WALL_W }
      else if nx = x \<and> ny = y + 1 then
        do { g1 \<leftarrow> clear_wall g x y WALL_S; clear_wall g1 nx ny WALL_N }
      else if nx = x - 1 \<and> ny = y then
        do { g1 \<leftarrow> clear_wall g x y WALL_W; clear_wall g1 nx ny WALL_E }
      else Some g)"

text \<open>The two loops of \<open>maze_init\<close> assign every cell of the array.\<close>

definition maze_init :: "nat \<Rightarrow> nat \<Rightarrow> Grid" where
  "maze_init W H =
     replicate H (replicate W \<lparr>walls = WALL_N OR WALL_E OR WALL_S OR WALL_W, visited = False\<rparr>)"

section \<open>The generator\<close>

text \<open>
  The state of the \<open>while\<close> loop of \<open>maze_generate\<close>: the grid, the stack (the list
  holds \<open>stack[top - 1]\<close> first and \<open>stack[0]\<close> last, so \<open>top\<close> is its length) and the
  number of calls of \<open>rand()\<close> made so far. The random source is a function \<open>rs\<close>:
  call number \<open>i\<close> of \<open>rand()\<close> returns \<open>rs i\<close>, a value that is not negative.
\<close>

record gen_state =
  grid :: Grid
  stack :: "P list"
  calls :: nat

text \<open>The variable \<open>top\<close>.\<close>

definition top_of :: "gen_state \<Rightarrow> nat" where
  "top_of s = length (stack s)"

text \<open>The candidates \<open>(x + dx[i], y + dy[i])\<close> for \<open>i = 0, 1, 2, 3\<close>.\<close>

definition candidates :: "int \<Rightarrow> int \<Rightarrow> P list" where
  "candidates x y = [(x + 0, y + (- 1)), (x + 1, y + 0), (x + 0, y + 1), (x + (- 1), y + 0)]"

text \<open>The \<open>for\<close> loop that fills \<open>neigh\<close>; \<open>&&\<close> reads the cell only when it is in bounds.\<close>

fun collect :: "nat \<Rightarrow> nat \<Rightarrow> Grid \<Rightarrow> P list \<Rightarrow> P list option" where
  "collect W H g [] = Some []"
| "collect W H g ((nx, ny) # ps) =
     (if in_bounds W H nx ny then
        (case cell_get g nx ny of
           None \<Rightarrow> None
         | Some c \<Rightarrow>
             if \<not> visited c then map_option (Cons (nx, ny)) (collect W H g ps)
             else collect W H g ps)
      else collect W H g ps)"

text \<open>
  One iteration of the \<open>while\<close> loop, entered with \<open>top > 0\<close>. The push
  \<open>stack[top++] = ...\<close> is outside the buffer of \<open>MAZE_W * MAZE_H\<close> entries when
  \<open>top\<close> has reached that capacity.
\<close>

definition gen_step :: "nat \<Rightarrow> nat \<Rightarrow> (nat \<Rightarrow> nat) \<Rightarrow> gen_state \<Rightarrow> gen_state option" where
  "gen_step W H rs s =
     (case stack s of
        [] \<Rightarrow> None
      | (x, y) # rest \<Rightarrow>
          do {
            neigh \<leftarrow> collect W H (grid s) (candidates x y);
            if length neigh = 0 then Some (s\<lparr>stack := rest\<rparr>)
            else do {
              let pick = rs (calls s) mod length neigh;
              let (nx, ny) = neigh ! pick;
              g1 \<leftarrow> knock_down (grid s) x y nx ny;
              g2 \<leftarrow> set_visited g1 nx ny True;
              if top_of s < W * H
              then Some \<lparr>grid = g2, stack = (nx, ny) # stack s, calls = calls s + 1\<rparr>
              else None
            }
          })"

definition unvisited_count :: "Grid \<Rightarrow> nat" where
  "unvisited_count g = sum_list (map (\<lambda>row. length (filter (\<lambda>c. \<not> visited c) row)) g)"

subsection \<open>Termination of the carving loop\<close>

text \<open>
  Every iteration either pops the stack or marks one more cell visited and pushes it, so
  twice the number of unvisited cells plus the stack depth decreases.
\<close>

lemma cell_set_shape:
  "cell_set g x y c = Some g' \<Longrightarrow> map length g' = map length g"
  by (auto simp: cell_set_def in_array_def nth_list_update intro!: nth_equalityI split: if_splits)

lemma in_array_cell_set:
  "cell_set g x y c = Some g' \<Longrightarrow> in_array g' x' y' = in_array g x' y'"
  by (auto simp: cell_set_def in_array_def nth_list_update split: if_splits)

lemma cell_at_cell_set:
  "cell_set g x y c = Some g' \<Longrightarrow> in_array g x' y' \<Longrightarrow>
   cell_at g' x' y' = (if x' = x \<and> y' = y then c else cell_at g x' y')"
  by (auto simp: cell_set_def in_array_def cell_at_def nth_list_update split: if_splits)

lemma cell_get_cell_set:
  "cell_set g x y c = Some g' \<Longrightarrow>
   cell_get g' x' y' = (if x' = x \<and> y' = y then Some c else cell_get g x' y')"
  by (auto simp: cell_get_def in_array_cell_set cell_at_cell_set)
   (auto simp: cell_set_def split: if_splits)

lemma row_count_update:
  "i < length row \<Longrightarrow>
   length (filter (\<lambda>c. \<not> visited c) (row[i := c])) + (if visited (row ! i) then 0 else 1)
   = length (filter (\<lambda>c. \<not> visited c) row) + (if visited c then 0 else 1)"
proof (induction row arbitrary: i)
  case Nil then show ?case by simp
next
  case (Cons a row)
  show ?case
  proof (cases i)
    case 0 then show ?thesis by simp
  next
    case (Suc k)
    with Cons.prems have "k < length row" by simp
    from Cons.IH[OF this] Suc show ?thesis by (auto split: if_splits)
  qed
qed

lemma sum_list_map_update:
  fixes f :: "'a \<Rightarrow> nat"
  shows "j < length xs \<Longrightarrow> sum_list (map f (xs[j := v])) + f (xs ! j) = sum_list (map f xs) + f v"
proof (induction xs arbitrary: j)
  case Nil then show ?case by simp
next
  case (Cons a xs)
  show ?case
  proof (cases j)
    case 0 then show ?thesis by simp
  next
    case (Suc k)
    with Cons.prems have "k < length xs" by simp
    from Cons.IH[OF this] Suc show ?thesis by simp
  qed
qed

lemma unvisited_count_cell_set:
  assumes "cell_set g x y c = Some g'"
  shows "unvisited_count g' + (if visited (cell_at g x y) then 0 else 1)
         = unvisited_count g + (if visited c then 0 else 1)"
proof -
  from assms have ia: "in_array g x y" and g': "g' = g[nat y := (g ! nat y)[nat x := c]]"
    by (auto simp: cell_set_def split: if_splits)
  let ?f = "\<lambda>row. length (filter (\<lambda>c. \<not> visited c) row)"
  from ia have jy: "nat y < length g" and ix: "nat x < length (g ! nat y)"
    by (auto simp: in_array_def)
  have "sum_list (map ?f (g[nat y := (g ! nat y)[nat x := c]])) + ?f (g ! nat y)
        = sum_list (map ?f g) + ?f ((g ! nat y)[nat x := c])"
    using jy by (rule sum_list_map_update)
  moreover have "?f ((g ! nat y)[nat x := c]) + (if visited (g ! nat y ! nat x) then 0 else 1)
        = ?f (g ! nat y) + (if visited c then 0 else 1)"
    using ix by (rule row_count_update)
  ultimately show ?thesis
    unfolding unvisited_count_def g' cell_at_def by linarith
qed

lemma clear_wall_Some:
  assumes "clear_wall g x y b = Some g'"
  shows "in_array g x y"
    and "cell_set g x y ((cell_at g x y)\<lparr>walls := walls (cell_at g x y) AND NOT b\<rparr>) = Some g'"
  using assms by (auto simp: clear_wall_def cell_get_def cell_set_def split: if_splits)

lemma set_visited_Some:
  assumes "set_visited g x y v = Some g'"
  shows "in_array g x y"
    and "cell_set g x y ((cell_at g x y)\<lparr>visited := v\<rparr>) = Some g'"
  using assms by (auto simp: set_visited_def cell_get_def cell_set_def split: if_splits)

lemma unvisited_count_clear_wall:
  "clear_wall g x y b = Some g' \<Longrightarrow> unvisited_count g' = unvisited_count g"
  using unvisited_count_cell_set[OF clear_wall_Some(2)] by fastforce

lemma unvisited_count_knock_down:
  "knock_down g x y nx ny = Some g' \<Longrightarrow> unvisited_count g' = unvisited_count g"
  by (auto simp: knock_down_def unvisited_count_clear_wall split: if_splits bind_splits)

lemma cell_get_clear_wall:
  "clear_wall g x y b = Some g' \<Longrightarrow>
   cell_get g' x' y' =
     (if x' = x \<and> y' = y then Some ((cell_at g x y)\<lparr>walls := walls (cell_at g x y) AND NOT b\<rparr>)
      else cell_get g x' y')"
  using cell_get_cell_set[OF clear_wall_Some(2)] by simp

lemma visited_clear_wall:
  "clear_wall g x y b = Some g' \<Longrightarrow>
   map_option visited (cell_get g' x' y') = map_option visited (cell_get g x' y')"
proof -
  assume a: "clear_wall g x y b = Some g'"
  from clear_wall_Some(1)[OF a] have "cell_get g x y = Some (cell_at g x y)"
    by (simp add: cell_get_def)
  then show ?thesis by (simp add: cell_get_clear_wall[OF a])
qed

lemma visited_knock_down:
  "knock_down g x y nx ny = Some g' \<Longrightarrow>
   map_option visited (cell_get g' x' y') = map_option visited (cell_get g x' y')"
  by (auto simp: knock_down_def visited_clear_wall split: if_splits bind_splits)

lemma collect_unvisited:
  "collect W H g ps = Some ns \<Longrightarrow> (nx, ny) \<in> set ns \<Longrightarrow>
   map_option visited (cell_get g nx ny) = Some False"
  by (induction W H g ps arbitrary: ns rule: collect.induct)
     (auto split: if_splits option.splits)

lemma gen_step_decreases:
  assumes "gen_step W H rs s = Some s'"
  shows "2 * unvisited_count (grid s') + length (stack s')
         < 2 * unvisited_count (grid s) + length (stack s)"
proof -
  from assms obtain x y rest where st: "stack s = (x, y) # rest"
    by (auto simp: gen_step_def split: list.splits)
  from assms st obtain neigh where col: "collect W H (grid s) (candidates x y) = Some neigh"
    by (auto simp: gen_step_def split: bind_splits)
  show ?thesis
  proof (cases "neigh = []")
    case True
    with assms st col have "s' = s\<lparr>stack := rest\<rparr>" by (simp add: gen_step_def)
    with st show ?thesis by simp
  next
    case False
    obtain nx ny where pk: "neigh ! (rs (calls s) mod length neigh) = (nx, ny)"
      by (cases "neigh ! (rs (calls s) mod length neigh)")
    from False have "(nx, ny) \<in> set neigh"
      using pk nth_mem[of "rs (calls s) mod length neigh" neigh] by simp
    from collect_unvisited[OF col this]
    have unv: "map_option visited (cell_get (grid s) nx ny) = Some False" .
    from assms st col False pk obtain g1 g2 where
      kd: "knock_down (grid s) x y nx ny = Some g1" and
      sv: "set_visited g1 nx ny True = Some g2" and
      s': "s' = \<lparr>grid = g2, stack = (nx, ny) # stack s, calls = calls s + 1\<rparr>"
      by (auto simp: gen_step_def Let_def split: bind_splits if_splits)
    from visited_knock_down[OF kd, of nx ny] unv
    have "\<not> visited (cell_at g1 nx ny)"
      by (auto simp: cell_get_def split: if_splits)
    with unvisited_count_cell_set[OF set_visited_Some(2)[OF sv]]
    have "unvisited_count g2 + 1 = unvisited_count g1" by simp
    with unvisited_count_knock_down[OF kd] s' show ?thesis by simp
  qed
qed

function gen_loop :: "nat \<Rightarrow> nat \<Rightarrow> (nat \<Rightarrow> nat) \<Rightarrow> gen_state \<Rightarrow> gen_state option" where
  "gen_loop W H rs s =
     (if top_of s > 0 then
        (case gen_step W H rs s of None \<Rightarrow> None | Some s' \<Rightarrow> gen_loop W H rs s')
      else Some s)"
  by pat_completeness auto
termination
  by (relation "measure (\<lambda>(W, H, rs, s). 2 * unvisited_count (grid s) + length (stack s))")
     (auto dest: gen_step_decreases)

text \<open>
  The states of the loop after at most \<open>n\<close> iterations, to speak about what holds
  while the loop runs.
\<close>

fun gen_iter :: "nat \<Rightarrow> nat \<Rightarrow> (nat \<Rightarrow> nat) \<Rightarrow> nat \<Rightarrow> gen_state \<Rightarrow> gen_state option" where
  "gen_iter W H rs 0 s = Some s"
| "gen_iter W H rs (Suc n) s =
     (if top_of s > 0 then
        (case gen_step W H rs s of None \<Rightarrow> None | Some s' \<Rightarrow> gen_iter W H rs n s')
      else Some s)"

text \<open>
  The statements before the loop: \<open>g[sy][sx].visited = true; stack[top++] = (sx, sy)\<close>
  with \<open>top = 0\<close>; \<open>k\<close> is the number of calls of \<open>rand()\<close> made before.
\<close>

definition gen_start :: "nat \<Rightarrow> nat \<Rightarrow> Grid \<Rightarrow> int \<Rightarrow> int \<Rightarrow> nat \<Rightarrow> gen_state option" where
  "gen_start W H g sx sy k =
     do {
       g0 \<leftarrow> set_visited g sx sy True;
       if 0 < W * H then Some \<lparr>grid = g0, stack = [(sx, sy)], calls = k\<rparr> else None
     }"

text \<open>The two loops after the carve assign \<open>visited = false\<close> in every cell.\<close>

definition clear_visited :: "Grid \<Rightarrow> Grid" where
  "clear_visited g = map (map (\<lambda>c. c\<lparr>visited := False\<rparr>)) g"

text \<open>\<open>maze_generate\<close> returns the carved grid and the number of \<open>rand()\<close> calls made.\<close>

definition maze_generate ::
  "nat \<Rightarrow> nat \<Rightarrow> (nat \<Rightarrow> nat) \<Rightarrow> nat \<Rightarrow> Grid \<Rightarrow> int \<Rightarrow> int \<Rightarrow> (Grid \<times> nat) option" where
  "maze_generate W H rs k g sx sy =
     do {
       s0 \<leftarrow> gen_start W H g sx sy k;
       s \<leftarrow> gen_loop W H rs s0;
       Some (clear_visited (grid s), calls s)
     }"

section \<open>Movement and the session\<close>

text \<open>\<open>try_move\<close> returns whether the player moved, and the player's cell afterwards.\<close>

definition try_move ::
  "nat \<Rightarrow> nat \<Rightarrow> Grid \<Rightarrow> int \<Rightarrow> int \<Rightarrow> int \<Rightarrow> int \<Rightarrow> (bool \<times> int \<times> int) option" where
  "try_move W H g px py dx dy =
     (let x = px; y = py; nx = x + dx; ny = y + dy in
      if \<not> in_bounds W H nx ny then Some (False, px, py)
      else
        (case cell_get g x y of
           None \<Rightarrow> None
         | Some c \<Rightarrow>
             (let w = walls c in
              if dx = 0 \<and> dy = - 1 \<and> w AND WALL_N \<noteq> 0 then Some (False, px, py)
              else if dx = 1 \<and> dy = 0 \<and> w AND WALL_E \<noteq> 0 then Some (False, px, py)
              else if dx = 0 \<and> dy = 1 \<and> w AND WALL_S \<noteq> 0 then Some (False, px, py)
              else if dx = - 1 \<and> dy = 0 \<and> w AND WALL_W \<noteq> 0 then Some (False, px, py)
              else Some (True, nx, ny))))"

text \<open>
  The state of \<open>main\<close>: the global grid, the locals \<open>px\<close>, \<open>py\<close>, \<open>running\<close> and
  \<open>won\<close>, the window title, and the number of \<open>rand()\<close> calls made so far (the
  stream is seeded once and never reseeded).
\<close>

record session =
  maze :: Grid
  player_x :: int
  player_y :: int
  won :: bool
  running :: bool
  title :: string
  rand_calls :: nat

definition regenerate :: "nat \<Rightarrow> nat \<Rightarrow> (nat \<Rightarrow> nat) \<Rightarrow> session \<Rightarrow> session option" where
  "regenerate W H rs S =
     do {
       (g', k') \<leftarrow> maze_generate W H rs (rand_calls S) (maze_init W H) 0 0;
       Some (S\<lparr>maze := g', rand_calls := k', player_x := 0, player_y := 0,
               title := ''SDL2 Maze - Reach the green goal (R to regenerate)''\<rparr>)
     }"

datatype key =
  SDLK_ESCAPE | SDLK_r | SDLK_UP | SDLK_w | SDLK_RIGHT | SDLK_d
| SDLK_DOWN | SDLK_s | SDLK_LEFT | SDLK_a | SDLK_other

datatype event = SDL_QUIT | SDL_KEYDOWN key | SDL_other

text \<open>A call \<open>try_move(&px, &py, dx, dy)\<close> of \<open>main\<close>, which drops the returned flag.\<close>

definition move :: "nat \<Rightarrow> nat \<Rightarrow> session \<Rightarrow> int \<Rightarrow> int \<Rightarrow> session option" where
  "move W H S dx dy =
     do {
       (moved, nx, ny) \<leftarrow> try_move W H (maze S) (player_x S) (player_y S) dx dy;
       Some (S\<lparr>player_x := nx, player_y := ny\<rparr>)
     }"

text \<open>The body of the inner \<open>while (SDL_PollEvent(&e))\<close> loop for one event.\<close>

definition handle_event :: "nat \<Rightarrow> nat \<Rightarrow> (nat \<Rightarrow> nat) \<Rightarrow> event \<Rightarrow> session \<Rightarrow> session option" where
  "handle_event W H rs e S =
     (case e of
        SDL_QUIT \<Rightarrow> Some (S\<lparr>running := False\<rparr>)
      | SDL_other \<Rightarrow> Some S
      | SDL_KEYDOWN k \<Rightarrow>
          do {
            let S1 = (if k = SDLK_ESCAPE then S\<lparr>running := False\<rparr> else S);
            S2 \<leftarrow> (if k = SDLK_r
                   then map_option (\<lambda>S'. S'\<lparr>won := False\<rparr>) (regenerate W H rs S1)
                   else Some S1);
            if \<not> won S2 then
              do {
                S3 \<leftarrow> (if k = SDLK_UP \<or> k = SDLK_w then move W H S2 0 (- 1) else Some S2);
                S4 \<leftarrow> (if k = SDLK_RIGHT \<or> k = SDLK_d then move W H S3 1 0 else Some S3);
                S5 \<leftarrow> (if k = SDLK_DOWN \<or> k = SDLK_s then move W H S4 0 1 else Some S4);
                S6 \<leftarrow> (if k = SDLK_LEFT \<or> k = SDLK_a then move W H S5 (- 1) 0 else Some S5);
                Some (if player_x S6 = int W - 1 \<and> player_y S6 = int H - 1
                      then S6\<lparr>won := True,
                              title := ''You win! Press R to regenerate, Esc to quit''\<rparr>
                      else S6)
              }
            else Some S2
          })"

text \<open>The events of a run, handled one after the other.\<close>

fun handle_events :: "nat \<Rightarrow> nat \<Rightarrow> (nat \<Rightarrow> nat) \<Rightarrow> event list \<Rightarrow> session \<Rightarrow> session option" where
  "handle_events W H rs [] S = Some S"
| "handle_events W H rs (e # es) S =
     (case handle_event W H rs e S of None \<Rightarrow> None | Some S' \<Rightarrow> handle_events W H rs es S')"

section \<open>The maze as a graph\<close>

text \<open>
  The four sides of a cell, with the wall bit and the step that \<open>knock_down\<close> and
  \<open>try_move\<close> give each of them.
\<close>

datatype dir = North | East | South | West

fun wall_of :: "dir \<Rightarrow> u8" where
  "wall_of North = WALL_N"
| "wall_of East = WALL_E"
| "wall_of South = WALL_S"
| "wall_of West = WALL_W"

fun dx_of :: "dir \<Rightarrow> int" where
  "dx_of North = 0"
| "dx_of East = 1"
| "dx_of South = 0"
| "dx_of West = - 1"

fun dy_of :: "dir \<Rightarrow> int" where
  "dy_of North = - 1"
| "dy_of East = 0"
| "dy_of South = 1"
| "dy_of West = 0"

fun opposite :: "dir \<Rightarrow> dir" where
  "opposite North = South"
| "opposite East = West"
| "opposite South = North"
| "opposite West = East"

definition towards :: "P \<Rightarrow> dir \<Rightarrow> P" where
  "towards a d = (fst a + dx_of d, snd a + dy_of d)"

definition is_cell :: "nat \<Rightarrow> nat \<Rightarrow> P \<Rightarrow> bool" where
  "is_cell W H a = in_bounds W H (fst a) (snd a)"

definition has_wall :: "Grid \<Rightarrow> P \<Rightarrow> dir \<Rightarrow> bool" where
  "has_wall g a d = (walls (cell_at g (fst a) (snd a)) AND wall_of d \<noteq> 0)"

definition is_visited :: "Grid \<Rightarrow> P \<Rightarrow> bool" where
  "is_visited g a = visited (cell_at g (fst a) (snd a))"

text \<open>The array has \<open>H\<close> rows of \<open>W\<close> cells.\<close>

definition wf_grid :: "nat \<Rightarrow> nat \<Rightarrow> Grid \<Rightarrow> bool" where
  "wf_grid W H g = (length g = H \<and> (\<forall>row \<in> set g. length row = W))"

text \<open>Wall reciprocity: two cells that share an edge agree on the wall between them.\<close>

definition reciprocal :: "nat \<Rightarrow> nat \<Rightarrow> Grid \<Rightarrow> bool" where
  "reciprocal W H g =
     (\<forall>a d. is_cell W H a \<and> is_cell W H (towards a d) \<longrightarrow>
        has_wall g a d = has_wall g (towards a d) (opposite d))"

text \<open>
  A passage from \<open>a\<close> to \<open>b\<close>: the two are cells, \<open>b\<close> is the neighbour of \<open>a\<close> on
  some side, and \<open>a\<close> has no wall on that side.
\<close>

definition passage :: "nat \<Rightarrow> nat \<Rightarrow> Grid \<Rightarrow> P \<Rightarrow> P \<Rightarrow> bool" where
  "passage W H g a b =
     (is_cell W H a \<and> is_cell W H b \<and> (\<exists>d. b = towards a d \<and> \<not> has_wall g a d))"

definition passages :: "nat \<Rightarrow> nat \<Rightarrow> Grid \<Rightarrow> P set set" where
  "passages W H g = {{a, b} | a b. passage W H g a b}"

definition connected_from :: "nat \<Rightarrow> nat \<Rightarrow> Grid \<Rightarrow> P \<Rightarrow> bool" where
  "connected_from W H g start = (\<forall>c. is_cell W H c \<longrightarrow> (passage W H g)\<^sup>*\<^sup>* start c)"

text \<open>
  A cycle: at least three distinct cells, each joined by a passage to the next, and the
  last to the first.
\<close>

definition cycle :: "('a \<Rightarrow> 'a \<Rightarrow> bool) \<Rightarrow> 'a list \<Rightarrow> bool" where
  "cycle R cs =
     (3 \<le> length cs \<and> distinct cs \<and>
      (\<forall>i < length cs. R (cs ! i) (cs ! (Suc i mod length cs))))"

definition acyclic_maze :: "nat \<Rightarrow> nat \<Rightarrow> Grid \<Rightarrow> bool" where
  "acyclic_maze W H g = (\<forall>cs. \<not> cycle (passage W H g) cs)"

definition spanning_tree :: "nat \<Rightarrow> nat \<Rightarrow> Grid \<Rightarrow> bool" where
  "spanning_tree W H g =
     (connected_from W H g (0, 0) \<and> acyclic_maze W H g \<and> card (passages W H g) = W * H - 1)"

definition visited_cells :: "nat \<Rightarrow> nat \<Rightarrow> Grid \<Rightarrow> P set" where
  "visited_cells W H g = {a. is_cell W H a \<and> is_visited g a}"

text \<open>The invariant of the carving loop, for the start cell \<open>st\<close>.\<close>

definition gen_inv :: "nat \<Rightarrow> nat \<Rightarrow> P \<Rightarrow> gen_state \<Rightarrow> bool" where
  "gen_inv W H st s =
     (wf_grid W H (grid s) \<and>
      st \<in> visited_cells W H (grid s) \<and>
      set (stack s) \<subseteq> visited_cells W H (grid s) \<and>
      distinct (stack s) \<and>
      reciprocal W H (grid s) \<and>
      (\<forall>a b. passage W H (grid s) a b \<longrightarrow>
         a \<in> visited_cells W H (grid s) \<and> b \<in> visited_cells W H (grid s)) \<and>
      (\<forall>c \<in> visited_cells W H (grid s). (passage W H (grid s))\<^sup>*\<^sup>* st c) \<and>
      acyclic_maze W H (grid s) \<and>
      card (passages W H (grid s)) + 1 = card (visited_cells W H (grid s)) \<and>
      (\<forall>a \<in> visited_cells W H (grid s) - set (stack s).
         \<forall>d. is_cell W H (towards a d) \<longrightarrow> towards a d \<in> visited_cells W H (grid s)))"

text \<open>
  The part of the invariant that holds from any grid of \<open>H\<close> rows of \<open>W\<close> cells,
  whatever its walls and flags: the cells on the stack are distinct visited cells.
\<close>

definition gen_safe :: "nat \<Rightarrow> nat \<Rightarrow> gen_state \<Rightarrow> bool" where
  "gen_safe W H s =
     (wf_grid W H (grid s) \<and>
      set (stack s) \<subseteq> visited_cells W H (grid s) \<and>
      distinct (stack s))"

text \<open>
  The four steps of one cell along one axis, and the wall bit \<open>try_move\<close> tests for
  each: north for \<open>dy = -1\<close>, east for \<open>dx = 1\<close>, south for \<open>dy = 1\<close>, west for
  \<open>dx = -1\<close>.
\<close>

definition unit_cardinal :: "int \<Rightarrow> int \<Rightarrow> bool" where
  "unit_cardinal dx dy = ((dx, dy) \<in> {(0, - 1), (1, 0), (0, 1), (- 1, 0)})"

definition side_bit :: "int \<Rightarrow> int \<Rightarrow> u8" where
  "side_bit dx dy =
     (if dy = - 1 then WALL_N else if dx = 1 then WALL_E else if dy = 1 then WALL_S else WALL_W)"

text \<open>
  The maze that \<open>maze_generate\<close> carves in a grid of two by two cells when call \<open>i\<close> of
  \<open>rand()\<close> returns \<open>i\<close>: the passages run from \<open>(0,0)\<close> east, then south, then west.
\<close>

definition tiny_maze :: Grid where
  "tiny_maze =
     [[\<lparr>walls = 13, visited = False\<rparr>, \<lparr>walls = 3, visited = False\<rparr>],
      [\<lparr>walls = 13, visited = False\<rparr>, \<lparr>walls = 6, visited = False\<rparr>]]"

text \<open>
  A grid of two by two cells with every wall set and the flag of the cell \<open>(1,0)\<close>
  already set. The program calls \<open>maze_generate\<close> after \<open>maze_init\<close> only, so it never
  passes such a grid; the function clears the flags of any grid all the same.
\<close>

definition marked_grid :: Grid where
  "marked_grid =
     [[\<lparr>walls = 15, visited = False\<rparr>, \<lparr>walls = 15, visited = True\<rparr>],
      [\<lparr>walls = 15, visited = False\<rparr>, \<lparr>walls = 15, visited = False\<rparr>]]"

text \<open>
  A walk: the steps \<open>ds\<close> tried one after the other from the cell \<open>p\<close>, each with
  \<open>try_move\<close>; the result is the cell reached when every step returned true.
\<close>

fun walk :: "nat \<Rightarrow> nat \<Rightarrow> Grid \<Rightarrow> P \<Rightarrow> (int \<times> int) list \<Rightarrow> P option" where
  "walk W H g p [] = Some p"
| "walk W H g p ((dx, dy) # ds) =
     (case try_move W H g (fst p) (snd p) dx dy of
        None \<Rightarrow> None
      | Some (moved, nx, ny) \<Rightarrow> if moved then walk W H g (nx, ny) ds else None)"

text \<open>The arrow key that \<open>main\<close> binds to each direction.\<close>

fun arrow :: "dir \<Rightarrow> key" where
  "arrow North = SDLK_UP"
| "arrow East = SDLK_RIGHT"
| "arrow South = SDLK_DOWN"
| "arrow West = SDLK_LEFT"

section \<open>Reading and writing cells of a well-formed grid\<close>

lemma wall_bits:
  "(w AND NOT (wall_of d)) AND wall_of e = (if e = d then 0 else w AND wall_of e)"
  by (cases d; cases e; simp add: WALL_N_def WALL_E_def WALL_S_def WALL_W_def and.assoc)

lemma wf_grid_shape: "wf_grid W H g \<longleftrightarrow> map length g = replicate H W"
proof
  assume "wf_grid W H g"
  then show "map length g = replicate H W"
    by (auto simp: wf_grid_def intro!: nth_equalityI)
next
  assume a: "map length g = replicate H W"
  then have "length (map length g) = H" by simp
  moreover have "set (map length g) \<subseteq> {W}" unfolding a by auto
  ultimately show "wf_grid W H g" by (auto simp: wf_grid_def)
qed

lemma wf_in_array: "wf_grid W H g \<Longrightarrow> in_array g x y = in_bounds W H x y"
  by (auto simp: wf_grid_def in_array_def in_bounds_def)

lemma wf_cell_set: "wf_grid W H g \<Longrightarrow> cell_set g x y c = Some g' \<Longrightarrow> wf_grid W H g'"
  by (simp add: wf_grid_shape cell_set_shape)

lemma cell_set_wf:
  assumes "wf_grid W H g" "is_cell W H a"
  shows "\<exists>g'. cell_set g (fst a) (snd a) c = Some g' \<and> wf_grid W H g' \<and>
           (\<forall>b. is_cell W H b \<longrightarrow>
              cell_at g' (fst b) (snd b) = (if b = a then c else cell_at g (fst b) (snd b)))"
proof -
  from assms have ia: "in_array g (fst a) (snd a)"
    by (simp add: wf_in_array is_cell_def)
  then obtain g' where g': "cell_set g (fst a) (snd a) c = Some g'"
    by (auto simp: cell_set_def)
  have "cell_at g' (fst b) (snd b) = (if b = a then c else cell_at g (fst b) (snd b))"
    if "is_cell W H b" for b
  proof -
    from that assms have "in_array g (fst b) (snd b)"
      by (simp add: wf_in_array is_cell_def)
    from cell_at_cell_set[OF g' this] show ?thesis
      by (auto simp: prod_eq_iff)
  qed
  with g' wf_cell_set[OF assms(1) g'] show ?thesis by blast
qed

lemma clear_wall_wf:
  assumes "wf_grid W H g" "is_cell W H a"
  shows "\<exists>g'. clear_wall g (fst a) (snd a) (wall_of d) = Some g' \<and> wf_grid W H g' \<and>
           (\<forall>c. is_cell W H c \<longrightarrow> is_visited g' c = is_visited g c) \<and>
           (\<forall>c e. is_cell W H c \<longrightarrow> has_wall g' c e = (has_wall g c e \<and> \<not> (c = a \<and> e = d)))"
proof -
  let ?c = "cell_at g (fst a) (snd a)"
  from assms have ia: "in_array g (fst a) (snd a)"
    by (simp add: wf_in_array is_cell_def)
  from cell_set_wf[OF assms, of "?c\<lparr>walls := walls ?c AND NOT (wall_of d)\<rparr>"]
  obtain g' where g': "cell_set g (fst a) (snd a) (?c\<lparr>walls := walls ?c AND NOT (wall_of d)\<rparr>) = Some g'"
    and wf': "wf_grid W H g'"
    and at: "\<And>b. is_cell W H b \<Longrightarrow> cell_at g' (fst b) (snd b)
               = (if b = a then ?c\<lparr>walls := walls ?c AND NOT (wall_of d)\<rparr> else cell_at g (fst b) (snd b))"
    by blast
  from ia g' have "clear_wall g (fst a) (snd a) (wall_of d) = Some g'"
    by (simp add: clear_wall_def cell_get_def)
  moreover have "\<forall>c. is_cell W H c \<longrightarrow> is_visited g' c = is_visited g c"
    by (auto simp: is_visited_def at)
  moreover have "\<forall>c e. is_cell W H c \<longrightarrow> has_wall g' c e = (has_wall g c e \<and> \<not> (c = a \<and> e = d))"
    by (auto simp: has_wall_def at wall_bits)
  ultimately show ?thesis using wf' by blast
qed

lemma towards_neq: "towards a d \<noteq> a"
  by (cases d) (auto simp: towards_def prod_eq_iff)

lemma towards_opposite: "towards (towards a d) (opposite d) = a"
  by (cases d) (auto simp: towards_def)

lemma knock_down_towards_eq:
  "knock_down g (fst a) (snd a) (fst (towards a d)) (snd (towards a d)) =
     do { g1 \<leftarrow> clear_wall g (fst a) (snd a) (wall_of d);
          clear_wall g1 (fst (towards a d)) (snd (towards a d)) (wall_of (opposite d)) }"
  by (cases d) (simp_all add: knock_down_def towards_def)

lemma knock_down_wf:
  assumes "wf_grid W H g" "is_cell W H a" "is_cell W H (towards a d)"
  shows "\<exists>g'. knock_down g (fst a) (snd a) (fst (towards a d)) (snd (towards a d)) = Some g' \<and>
           wf_grid W H g' \<and>
           (\<forall>c. is_cell W H c \<longrightarrow> is_visited g' c = is_visited g c) \<and>
           (\<forall>c e. is_cell W H c \<longrightarrow>
              has_wall g' c e =
                (has_wall g c e \<and> \<not> (c = a \<and> e = d) \<and> \<not> (c = towards a d \<and> e = opposite d)))"
proof -
  from clear_wall_wf[OF assms(1,2), of d] obtain g1 where
    1: "clear_wall g (fst a) (snd a) (wall_of d) = Some g1" "wf_grid W H g1"
       "\<And>c. is_cell W H c \<Longrightarrow> is_visited g1 c = is_visited g c"
       "\<And>c e. is_cell W H c \<Longrightarrow> has_wall g1 c e = (has_wall g c e \<and> \<not> (c = a \<and> e = d))"
    by blast
  from clear_wall_wf[OF 1(2) assms(3), of "opposite d"] obtain g2 where
    2: "clear_wall g1 (fst (towards a d)) (snd (towards a d)) (wall_of (opposite d)) = Some g2"
       "wf_grid W H g2"
       "\<And>c. is_cell W H c \<Longrightarrow> is_visited g2 c = is_visited g1 c"
       "\<And>c e. is_cell W H c \<Longrightarrow>
          has_wall g2 c e = (has_wall g1 c e \<and> \<not> (c = towards a d \<and> e = opposite d))"
    by blast
  have "knock_down g (fst a) (snd a) (fst (towards a d)) (snd (towards a d)) = Some g2"
    by (simp add: knock_down_towards_eq 1(1) 2(1))
  with 1 2 show ?thesis by auto
qed

section \<open>Adding a leaf to a graph\<close>

lemma cycle_index:
  fixes L j :: nat
  assumes "3 \<le> L" "j < L"
  shows "Suc ((j + L - 1) mod L) mod L = j" and "(j + L - 1) mod L \<noteq> Suc j mod L"
proof -
  have i: "(j + L - 1) mod L = (if j = 0 then L - 1 else j - 1)"
  proof (cases j)
    case 0 with assms show ?thesis by simp
  next
    case (Suc m)
    then have "j + L - 1 = m + L" by simp
    with Suc assms show ?thesis by simp
  qed
  have k: "Suc j mod L = (if Suc j = L then 0 else Suc j)"
    using assms by (simp add: mod_Suc)
  from i assms show "Suc ((j + L - 1) mod L) mod L = j"
    by (cases j) (simp_all add: mod_Suc)
  from i k assms show "(j + L - 1) mod L \<noteq> Suc j mod L"
    by (cases j) (simp_all split: if_splits)
qed

lemma no_cycle_add_leaf:
  assumes nc: "\<forall>cs. \<not> cycle R cs"
    and R': "\<And>x y. R' x y \<longleftrightarrow> R x y \<or> (x = a \<and> y = n) \<or> (x = n \<and> y = a)"
    and leaf: "\<And>x. \<not> R x n \<and> \<not> R n x"
    and neq: "a \<noteq> n"
  shows "\<not> cycle R' cs"
proof
  assume c: "cycle R' cs"
  let ?L = "length cs"
  from c have L: "3 \<le> ?L" and d: "distinct cs"
    and e: "\<And>i. i < ?L \<Longrightarrow> R' (cs ! i) (cs ! (Suc i mod ?L))"
    by (auto simp: cycle_def)
  from L have L0: "0 < ?L" by linarith
  show False
  proof (cases "n \<in> set cs")
    case False
    have "R (cs ! i) (cs ! (Suc i mod ?L))" if "i < ?L" for i
    proof -
      from L0 have "Suc i mod ?L < ?L" by (rule mod_less_divisor)
      with that False have "cs ! i \<noteq> n" "cs ! (Suc i mod ?L) \<noteq> n"
        by (metis nth_mem)+
      with e[OF that] show ?thesis by (simp add: R')
    qed
    with L d have "cycle R cs" by (simp add: cycle_def)
    with nc show False by blast
  next
    case True
    then obtain j where j: "j < ?L" "cs ! j = n"
      by (auto simp: in_set_conv_nth)
    let ?i = "(j + ?L - 1) mod ?L"
    let ?k = "Suc j mod ?L"
    from L0 have i: "?i < ?L" and k: "?k < ?L" by (rule mod_less_divisor)+
    from cycle_index[OF L j(1)] have si: "Suc ?i mod ?L = j" and ik: "?i \<noteq> ?k"
      by simp_all
    from e[OF j(1)] j(2) leaf neq have "cs ! ?k = a" by (auto simp: R')
    moreover from e[OF i] si j(2) leaf neq have "cs ! ?i = a" by (auto simp: R')
    ultimately have "cs ! ?i = cs ! ?k" by simp
    with d i k have "?i = ?k" by (simp add: nth_eq_iff_index_eq)
    with ik show False by contradiction
  qed
qed

lemma reach_add_leaf:
  assumes R': "\<And>x y. R' x y \<longleftrightarrow> R x y \<or> (x = a \<and> y = n) \<or> (x = n \<and> y = a)"
    and reach: "\<And>c. c \<in> V \<Longrightarrow> R\<^sup>*\<^sup>* st c"
    and a: "a \<in> V"
    and c: "c \<in> insert n V"
  shows "R'\<^sup>*\<^sup>* st c"
proof -
  have mono: "R\<^sup>*\<^sup>* st x \<Longrightarrow> R'\<^sup>*\<^sup>* st x" for x
    by (rule rtranclp_mono[THEN predicate2D]) (auto simp: R')
  show ?thesis
  proof (cases "c = n")
    case True
    from mono[OF reach[OF a]] have "R'\<^sup>*\<^sup>* st a" .
    moreover have "R' a n" by (simp add: R')
    ultimately show ?thesis using True by auto
  next
    case False
    with c have "c \<in> V" by simp
    from mono[OF reach[OF this]] show ?thesis .
  qed
qed

section \<open>Cells and passages of the grid\<close>

lemma cells_eq: "{a. is_cell W H a} = {0..<int W} \<times> {0..<int H}"
  by (auto simp: is_cell_def in_bounds_def)

lemma finite_cells: "finite {a. is_cell W H a}"
  by (simp add: cells_eq)

lemma card_cells: "card {a. is_cell W H a} = W * H"
  by (simp add: cells_eq card_cartesian_product)

lemma finite_visited_cells: "finite (visited_cells W H g)"
  by (rule finite_subset[OF _ finite_cells[of W H]]) (auto simp: visited_cells_def)

lemma finite_passages: "finite (passages W H g)"
proof -
  have "passages W H g \<subseteq> (\<lambda>(a, b). {a, b}) ` ({a. is_cell W H a} \<times> {a. is_cell W H a})"
    by (auto simp: passages_def passage_def)
  then show ?thesis
    by (rule finite_subset) (simp add: finite_cells)
qed

lemma passages_add:
  assumes "\<And>x y. passage W H g' x y \<longleftrightarrow> passage W H g x y \<or> (x = a \<and> y = n) \<or> (x = n \<and> y = a)"
  shows "passages W H g' = insert {a, n} (passages W H g)"
proof (intro set_eqI iffI)
  fix e assume "e \<in> passages W H g'"
  then obtain x y where e: "e = {x, y}" and "passage W H g' x y"
    by (auto simp: passages_def)
  then consider "passage W H g x y" | "x = a" "y = n" | "x = n" "y = a"
    unfolding assms by blast
  then show "e \<in> insert {a, n} (passages W H g)"
  proof cases
    case 1
    with e show ?thesis unfolding passages_def by blast
  next
    case 2
    with e show ?thesis by simp
  next
    case 3
    with e have "e = {a, n}" by (simp add: insert_commute)
    then show ?thesis by simp
  qed
next
  fix e assume "e \<in> insert {a, n} (passages W H g)"
  then consider "e = {a, n}" | x y where "e = {x, y}" "passage W H g x y"
    by (auto simp: passages_def)
  then show "e \<in> passages W H g'"
  proof cases
    case 1
    have "passage W H g' a n" by (simp add: assms)
    with 1 show ?thesis unfolding passages_def by blast
  next
    case 2
    then have "passage W H g' x y" by (simp add: assms)
    with 2 show ?thesis unfolding passages_def by blast
  qed
qed

lemma closed_all_cells:
  assumes st: "is_cell W H st" "st \<in> V"
    and closed: "\<And>a d. a \<in> V \<Longrightarrow> is_cell W H (towards a d) \<Longrightarrow> towards a d \<in> V"
    and c: "is_cell W H c"
  shows "c \<in> V"
proof -
  have "\<forall>c. is_cell W H c \<and> nat \<bar>fst c - fst st\<bar> + nat \<bar>snd c - snd st\<bar> = k \<longrightarrow> c \<in> V" for k
  proof (induction k)
    case 0
    have "c = st" if "nat \<bar>fst c - fst st\<bar> + nat \<bar>snd c - snd st\<bar> = 0" for c
      using that by (auto simp: prod_eq_iff)
    with st show ?case by auto
  next
    case (Suc k)
    show ?case
    proof (intro allI impI)
      fix c :: P
      assume a: "is_cell W H c \<and> nat \<bar>fst c - fst st\<bar> + nat \<bar>snd c - snd st\<bar> = Suc k"
      obtain x y where c: "c = (x, y)" by (cases c)
      obtain sx sy where s: "st = (sx, sy)" by (cases st)
      from a c s st(1) have b: "0 \<le> x" "x < int W" "0 \<le> y" "y < int H"
        "0 \<le> sx" "sx < int W" "0 \<le> sy" "sy < int H"
        and dist: "nat \<bar>x - sx\<bar> + nat \<bar>y - sy\<bar> = Suc k"
        by (auto simp: is_cell_def in_bounds_def)
      have "\<exists>d. is_cell W H (towards c d)
              \<and> nat \<bar>fst (towards c d) - sx\<bar> + nat \<bar>snd (towards c d) - sy\<bar> = k"
      proof -
        consider "x < sx" | "sx < x" | "x = sx" "y < sy" | "x = sx" "sy < y"
          using dist by fastforce
        then show ?thesis
        proof cases
          case 1
          with b dist show ?thesis
            by (intro exI[of _ East]) (auto simp: towards_def c is_cell_def in_bounds_def)
        next
          case 2
          with b dist show ?thesis
            by (intro exI[of _ West]) (auto simp: towards_def c is_cell_def in_bounds_def)
        next
          case 3
          with b dist show ?thesis
            by (intro exI[of _ South]) (auto simp: towards_def c is_cell_def in_bounds_def)
        next
          case 4
          with b dist show ?thesis
            by (intro exI[of _ North]) (auto simp: towards_def c is_cell_def in_bounds_def)
        qed
      qed
      then obtain d where d: "is_cell W H (towards c d)"
        "nat \<bar>fst (towards c d) - sx\<bar> + nat \<bar>snd (towards c d) - sy\<bar> = k"
        by blast
      with Suc[rule_format, of "towards c d"] s have "towards c d \<in> V" by simp
      from closed[OF this, of "opposite d"] a show "c \<in> V"
        by (simp add: towards_opposite)
    qed
  qed
  with c show ?thesis by blast
qed

section \<open>One carving step\<close>

lemma set_visited_wf:
  assumes "wf_grid W H g" "is_cell W H a"
  shows "\<exists>g'. set_visited g (fst a) (snd a) v = Some g' \<and> wf_grid W H g' \<and>
           (\<forall>c. is_cell W H c \<longrightarrow> is_visited g' c = (if c = a then v else is_visited g c)) \<and>
           (\<forall>c e. is_cell W H c \<longrightarrow> has_wall g' c e = has_wall g c e)"
proof -
  let ?c = "cell_at g (fst a) (snd a)"
  from assms have ia: "in_array g (fst a) (snd a)"
    by (simp add: wf_in_array is_cell_def)
  from cell_set_wf[OF assms, of "?c\<lparr>visited := v\<rparr>"]
  obtain g' where g': "cell_set g (fst a) (snd a) (?c\<lparr>visited := v\<rparr>) = Some g'"
    and wf': "wf_grid W H g'"
    and at: "\<And>b. is_cell W H b \<Longrightarrow> cell_at g' (fst b) (snd b)
               = (if b = a then ?c\<lparr>visited := v\<rparr> else cell_at g (fst b) (snd b))"
    by blast
  from ia g' have "set_visited g (fst a) (snd a) v = Some g'"
    by (simp add: set_visited_def cell_get_def)
  moreover have "\<forall>c. is_cell W H c \<longrightarrow> is_visited g' c = (if c = a then v else is_visited g c)"
    by (auto simp: is_visited_def at)
  moreover have "\<forall>c e. is_cell W H c \<longrightarrow> has_wall g' c e = has_wall g c e"
    by (auto simp: has_wall_def at)
  ultimately show ?thesis using wf' by blast
qed

lemma collect_wf:
  "wf_grid W H g \<Longrightarrow>
   collect W H g ps = Some (filter (\<lambda>p. is_cell W H p \<and> \<not> is_visited g p) ps)"
  by (induction W H g ps rule: collect.induct)
     (auto simp: is_cell_def is_visited_def cell_get_def wf_in_array)

lemma candidates_towards:
  "candidates x y = map (towards (x, y)) [North, East, South, West]"
  by (simp add: candidates_def towards_def)

lemma passage_cong:
  assumes "\<And>c e. is_cell W H c \<Longrightarrow> has_wall g' c e = has_wall g c e"
  shows "passage W H g' = passage W H g"
  by (auto simp: passage_def assms fun_eq_iff)

lemma passage_knock:
  assumes hw: "\<And>c e. is_cell W H c \<Longrightarrow>
              has_wall g' c e =
                (has_wall g c e \<and> \<not> (c = a \<and> e = d) \<and> \<not> (c = towards a d \<and> e = opposite d))"
    and a: "is_cell W H a" and n: "is_cell W H (towards a d)"
  shows "passage W H g' x y \<longleftrightarrow>
         passage W H g x y \<or> (x = a \<and> y = towards a d) \<or> (x = towards a d \<and> y = a)"
proof
  assume "passage W H g' x y"
  then obtain e where x: "is_cell W H x" and y: "is_cell W H y" and e: "y = towards x e"
    and nw: "\<not> has_wall g' x e"
    by (auto simp: passage_def)
  from nw hw[OF x] consider "\<not> has_wall g x e" | "x = a" "e = d" | "x = towards a d" "e = opposite d"
    by blast
  then show "passage W H g x y \<or> (x = a \<and> y = towards a d) \<or> (x = towards a d \<and> y = a)"
  proof cases
    case 1 with x y e show ?thesis by (auto simp: passage_def)
  next
    case 2 with e show ?thesis by simp
  next
    case 3 with e show ?thesis by (simp add: towards_opposite)
  qed
next
  assume "passage W H g x y \<or> (x = a \<and> y = towards a d) \<or> (x = towards a d \<and> y = a)"
  then consider "passage W H g x y" | "x = a" "y = towards a d" | "x = towards a d" "y = a"
    by blast
  then show "passage W H g' x y"
  proof cases
    case 1
    then show ?thesis by (auto simp: passage_def hw)
  next
    case 2
    with a n show ?thesis unfolding passage_def by (auto simp: hw)
  next
    case 3
    have "a = towards (towards a d) (opposite d)" by (simp add: towards_opposite)
    moreover have "\<not> has_wall g' (towards a d) (opposite d)" by (simp add: hw[OF n])
    ultimately show ?thesis using 3 a n unfolding passage_def by blast
  qed
qed

lemma opposite_opposite: "opposite (opposite d) = d"
  by (cases d) simp_all

lemma opposite_inj: "opposite d = opposite e \<Longrightarrow> d = e"
  by (cases d; cases e) simp_all

lemma towards_inj_cell: "towards a d = towards b d \<Longrightarrow> a = b"
  by (auto simp: towards_def prod_eq_iff)

lemma reciprocalD:
  "reciprocal W H g \<Longrightarrow> is_cell W H a \<Longrightarrow> is_cell W H (towards a d) \<Longrightarrow>
   has_wall g a d = has_wall g (towards a d) (opposite d)"
  unfolding reciprocal_def by blast

lemma reciprocal_knock:
  assumes hw: "\<And>c e. is_cell W H c \<Longrightarrow>
              has_wall g' c e =
                (has_wall g c e \<and> \<not> (c = a \<and> e = d) \<and> \<not> (c = towards a d \<and> e = opposite d))"
    and r: "reciprocal W H g"
  shows "reciprocal W H g'"
  unfolding reciprocal_def
proof (intro allI impI)
  fix c e
  assume ce: "is_cell W H c \<and> is_cell W H (towards c e)"
  with r have 0: "has_wall g c e = has_wall g (towards c e) (opposite e)"
    by (simp add: reciprocalD)
  have 1: "(c = a \<and> e = d) \<longleftrightarrow> (towards c e = towards a d \<and> opposite e = opposite d)"
    by (auto dest: opposite_inj towards_inj_cell)
  have 2: "(c = towards a d \<and> e = opposite d) \<longleftrightarrow> (towards c e = a \<and> opposite e = d)"
  proof
    assume "c = towards a d \<and> e = opposite d"
    then show "towards c e = a \<and> opposite e = d"
      by (simp add: towards_opposite opposite_opposite)
  next
    assume h: "towards c e = a \<and> opposite e = d"
    then have "e = opposite d" using opposite_opposite[of e] by simp
    moreover from h have "towards a d = towards (towards c e) (opposite e)" by simp
    then have "towards a d = c" by (simp add: towards_opposite)
    ultimately show "c = towards a d \<and> e = opposite d" by simp
  qed
  from ce show "has_wall g' c e = has_wall g' (towards c e) (opposite e)"
    using 0 1 2 by (simp add: hw) blast
qed

lemma stack_bound:
  assumes "set xs \<subseteq> visited_cells W H g" "distinct xs"
  shows "length xs \<le> W * H"
proof -
  from assms(2) have "length xs = card (set xs)" by (simp add: distinct_card)
  also have "\<dots> \<le> card {a. is_cell W H a}"
    using assms(1) by (intro card_mono finite_cells) (auto simp: visited_cells_def)
  finally show ?thesis by (simp add: card_cells)
qed

lemma gen_step_pop:
  assumes inv: "gen_inv W H st s"
    and st: "stack s = a # rest"
    and no: "\<forall>d. is_cell W H (towards a d) \<longrightarrow> is_visited (grid s) (towards a d)"
  shows "gen_inv W H st (s\<lparr>stack := rest\<rparr>)"
proof -
  let ?V = "visited_cells W H (grid s)"
  from inv st have a: "a \<in> ?V" by (simp add: gen_inv_def)
  have closed: "towards c d \<in> ?V"
    if "c \<in> ?V - set rest" "is_cell W H (towards c d)" for c d
  proof (cases "c = a")
    case True
    with no that show ?thesis by (simp add: visited_cells_def)
  next
    case False
    with that st have "c \<in> ?V - set (stack s)" by simp
    with inv that(2) show ?thesis unfolding gen_inv_def by blast
  qed
  from inv st closed show ?thesis
    unfolding gen_inv_def by (simp del: Diff_iff)
qed

lemma gen_step_push:
  assumes inv: "gen_inv W H st s"
    and st: "stack s = a # rest"
    and p: "p = towards a d" "is_cell W H p" "\<not> is_visited (grid s) p"
    and g1: "wf_grid W H g1"
      "\<And>c. is_cell W H c \<Longrightarrow> is_visited g1 c = is_visited (grid s) c"
      "\<And>c e. is_cell W H c \<Longrightarrow>
          has_wall g1 c e =
            (has_wall (grid s) c e \<and> \<not> (c = a \<and> e = d) \<and> \<not> (c = towards a d \<and> e = opposite d))"
    and g2: "wf_grid W H g2"
      "\<And>c. is_cell W H c \<Longrightarrow> is_visited g2 c = (if c = p then True else is_visited g1 c)"
      "\<And>c e. is_cell W H c \<Longrightarrow> has_wall g2 c e = has_wall g1 c e"
  shows "gen_inv W H st \<lparr>grid = g2, stack = p # stack s, calls = k\<rparr>"
proof -
  let ?g = "grid s"
  let ?V = "visited_cells W H ?g"
  let ?V' = "visited_cells W H g2"
  from inv have
    i_st: "st \<in> ?V" and
    i_sub: "set (stack s) \<subseteq> ?V" and
    i_dist: "distinct (stack s)" and
    i_rec: "reciprocal W H ?g" and
    i_pas: "\<And>x y. passage W H ?g x y \<Longrightarrow> x \<in> ?V \<and> y \<in> ?V" and
    i_reach: "\<And>c. c \<in> ?V \<Longrightarrow> (passage W H ?g)\<^sup>*\<^sup>* st c" and
    i_acyc: "\<forall>cs. \<not> cycle (passage W H ?g) cs" and
    i_card: "card (passages W H ?g) + 1 = card ?V" and
    i_closed: "\<And>c e. c \<in> ?V - set (stack s) \<Longrightarrow> is_cell W H (towards c e) \<Longrightarrow> towards c e \<in> ?V"
    unfolding gen_inv_def acyclic_maze_def by blast+
  from i_sub st have a: "a \<in> ?V" by simp
  then have ca: "is_cell W H a" by (simp add: visited_cells_def)
  from p have pV: "p \<notin> ?V" by (simp add: visited_cells_def)
  have V': "?V' = insert p ?V"
    using p(2) by (auto simp: visited_cells_def g2(2) g1(2))
  have pas2: "passage W H g2 = passage W H g1"
    by (rule passage_cong) (rule g2(3))
  have pas: "passage W H g2 x y \<longleftrightarrow>
        passage W H ?g x y \<or> (x = a \<and> y = p) \<or> (x = p \<and> y = a)" for x y
    unfolding pas2 p(1)
    by (rule passage_knock[where d = d]) (use g1(3) ca p in auto)
  have leaf: "\<not> passage W H ?g x p \<and> \<not> passage W H ?g p x" for x
    using i_pas pV by blast
  have ap: "a \<noteq> p" unfolding p(1) using towards_neq[of a d] by simp
  have 1: "st \<in> ?V'" using i_st V' by simp
  have 2: "set (p # stack s) \<subseteq> ?V'" using i_sub V' by auto
  have 3: "distinct (p # stack s)" using i_dist i_sub pV by auto
  have "reciprocal W H g1"
    by (rule reciprocal_knock[where a = a and d = d and g = ?g]) (use g1(3) i_rec in auto)
  then have 4: "reciprocal W H g2"
    unfolding reciprocal_def by (simp add: g2(3))
  have 5: "\<forall>x y. passage W H g2 x y \<longrightarrow> x \<in> ?V' \<and> y \<in> ?V'"
    using i_pas a unfolding pas V' by blast
  have 6: "\<forall>c \<in> ?V'. (passage W H g2)\<^sup>*\<^sup>* st c"
  proof
    fix c assume "c \<in> ?V'"
    then have "c \<in> insert p ?V" by (simp add: V')
    with pas i_reach a show "(passage W H g2)\<^sup>*\<^sup>* st c"
      by (rule reach_add_leaf[where R = "passage W H ?g" and V = ?V])
  qed
  have 7: "acyclic_maze W H g2"
    unfolding acyclic_maze_def
  proof
    fix cs
    from i_acyc pas leaf ap show "\<not> cycle (passage W H g2) cs"
      by (rule no_cycle_add_leaf)
  qed
  have "passages W H g2 = insert {a, p} (passages W H ?g)"
    by (rule passages_add) (rule pas)
  moreover have "{a, p} \<notin> passages W H ?g"
  proof
    assume "{a, p} \<in> passages W H ?g"
    then obtain x y where "{a, p} = {x, y}" "passage W H ?g x y"
      by (auto simp: passages_def)
    then have "passage W H ?g a p \<or> passage W H ?g p a"
      by (auto simp: doubleton_eq_iff)
    with leaf show False by blast
  qed
  ultimately have "card (passages W H g2) = card (passages W H ?g) + 1"
    by (simp add: finite_passages)
  moreover have "card ?V' = card ?V + 1"
    unfolding V' using pV by (simp add: finite_visited_cells)
  ultimately have 8: "card (passages W H g2) + 1 = card ?V'"
    using i_card by simp
  have 9: "\<forall>c \<in> ?V' - set (p # stack s). \<forall>e. is_cell W H (towards c e) \<longrightarrow> towards c e \<in> ?V'"
  proof (intro ballI allI impI)
    fix c e assume "c \<in> ?V' - set (p # stack s)" "is_cell W H (towards c e)"
    then have "c \<in> ?V - set (stack s)" "is_cell W H (towards c e)"
      by (auto simp: V')
    from i_closed[OF this] show "towards c e \<in> ?V'" by (simp add: V')
  qed
  from g2(1) 1 2 3 4 5 6 7 8 9 show ?thesis
    unfolding gen_inv_def by simp
qed

lemma towards_candidates: "towards (x, y) d \<in> set (candidates x y)"
  by (cases d) (simp_all add: candidates_def towards_def)

lemma candidates_towardsE:
  assumes "p \<in> set (candidates x y)"
  obtains d where "p = towards (x, y) d"
  using assms unfolding candidates_towards by auto

lemma gen_step_inv:
  assumes inv: "gen_inv W H st s" and ne: "0 < top_of s"
  shows "\<exists>s'. gen_step W H rs s = Some s' \<and> gen_inv W H st s' \<and>
           visited_cells W H (grid s) \<subseteq> visited_cells W H (grid s')"
proof -
  from ne obtain x y rest where st: "stack s = (x, y) # rest"
    by (cases "stack s") (auto simp: top_of_def)
  define neigh where "neigh = filter (\<lambda>p. is_cell W H p \<and> \<not> is_visited (grid s) p) (candidates x y)"
  from inv have wf: "wf_grid W H (grid s)"
    and sub: "set (stack s) \<subseteq> visited_cells W H (grid s)"
    and dist: "distinct (stack s)"
    by (simp_all add: gen_inv_def)
  from sub st have ca: "is_cell W H (x, y)" by (simp add: visited_cells_def)
  have col: "collect W H (grid s) (candidates x y) = Some neigh"
    unfolding neigh_def using wf by (rule collect_wf)
  show ?thesis
  proof (cases "neigh = []")
    case True
    have "is_visited (grid s) (towards (x, y) d)" if "is_cell W H (towards (x, y) d)" for d
      using True that towards_candidates[of x y d]
      unfolding neigh_def filter_empty_conv by blast
    then have "\<forall>d. is_cell W H (towards (x, y) d) \<longrightarrow> is_visited (grid s) (towards (x, y) d)"
      by blast
    from gen_step_pop[OF inv st this] have "gen_inv W H st (s\<lparr>stack := rest\<rparr>)" .
    moreover have "gen_step W H rs s = Some (s\<lparr>stack := rest\<rparr>)"
      using True by (simp add: gen_step_def st col)
    moreover have "grid (s\<lparr>stack := rest\<rparr>) = grid s" by simp
    ultimately show ?thesis by (intro exI[of _ "s\<lparr>stack := rest\<rparr>"]) simp
  next
    case False
    define p where "p = neigh ! (rs (calls s) mod length neigh)"
    from False have "0 < length neigh" by simp
    then have "rs (calls s) mod length neigh < length neigh" by (rule mod_less_divisor)
    then have "p \<in> set neigh" unfolding p_def by (rule nth_mem)
    then have p: "is_cell W H p" "\<not> is_visited (grid s) p" and pc: "p \<in> set (candidates x y)"
      by (simp_all add: neigh_def)
    from pc obtain d where d: "p = towards (x, y) d"
      by (rule candidates_towardsE)
    from p(1) d have cn: "is_cell W H (towards (x, y) d)" by simp
    from knock_down_wf[OF wf ca cn] obtain g1 where
      kd0: "knock_down (grid s) (fst (x, y)) (snd (x, y)) (fst (towards (x, y) d)) (snd (towards (x, y) d)) = Some g1" and
      g1: "wf_grid W H g1"
        "\<And>c. is_cell W H c \<Longrightarrow> is_visited g1 c = is_visited (grid s) c"
        "\<And>c e. is_cell W H c \<Longrightarrow>
           has_wall g1 c e =
             (has_wall (grid s) c e \<and> \<not> (c = (x, y) \<and> e = d) \<and> \<not> (c = towards (x, y) d \<and> e = opposite d))"
      by blast
    from kd0 d have kd: "knock_down (grid s) x y (fst p) (snd p) = Some g1" by simp
    from set_visited_wf[OF g1(1) p(1), of True] obtain g2 where
      sv: "set_visited g1 (fst p) (snd p) True = Some g2" and
      g2: "wf_grid W H g2"
        "\<And>c. is_cell W H c \<Longrightarrow> is_visited g2 c = (if c = p then True else is_visited g1 c)"
        "\<And>c e. is_cell W H c \<Longrightarrow> has_wall g2 c e = has_wall g1 c e"
      by blast
    define s' where "s' = \<lparr>grid = g2, stack = p # stack s, calls = calls s + 1\<rparr>"
    from gen_step_push[OF inv st d p g1 g2]
    have inv': "gen_inv W H st s'" unfolding s'_def .
    then have "set (p # stack s) \<subseteq> visited_cells W H g2" "distinct (p # stack s)"
      by (simp_all add: gen_inv_def s'_def)
    from stack_bound[OF this] have cap: "top_of s < W * H" by (simp add: top_of_def)
    have "gen_step W H rs s = Some s'"
      using False cap kd sv
      by (simp add: gen_step_def st col Let_def case_prod_beta p_def[symmetric] s'_def)
    moreover have "visited_cells W H (grid s) \<subseteq> visited_cells W H g2"
      by (auto simp: visited_cells_def g2(2) g1(2))
    moreover have "grid s' = g2" by (simp add: s'_def)
    ultimately show ?thesis using inv' by (intro exI[of _ s']) simp
  qed
qed

lemma gen_inv_top: "gen_inv W H st s \<Longrightarrow> top_of s \<le> W * H"
  unfolding top_of_def by (rule stack_bound[where g = "grid s"]) (simp_all add: gen_inv_def)

lemma gen_loop_inv:
  "gen_inv W H st s \<Longrightarrow>
   \<exists>s'. gen_loop W H rs s = Some s' \<and> gen_inv W H st s' \<and> top_of s' = 0 \<and>
        visited_cells W H (grid s) \<subseteq> visited_cells W H (grid s')"
proof (induction W H rs s rule: gen_loop.induct)
  case (1 W H rs s)
  show ?case
  proof (cases "0 < top_of s")
    case True
    from gen_step_inv[OF "1.prems" True, of rs] obtain s1 where
      s1: "gen_step W H rs s = Some s1" "gen_inv W H st s1"
        "visited_cells W H (grid s) \<subseteq> visited_cells W H (grid s1)"
      by blast
    from "1.IH"[OF True s1(1) s1(2)] obtain s' where
      "gen_loop W H rs s1 = Some s'" "gen_inv W H st s'" "top_of s' = 0"
      "visited_cells W H (grid s1) \<subseteq> visited_cells W H (grid s')"
      by blast
    with True s1 show ?thesis by (subst gen_loop.simps) auto
  next
    case False
    with "1.prems" show ?thesis by (subst gen_loop.simps) auto
  qed
qed

lemma gen_iter_inv:
  "gen_inv W H st s \<Longrightarrow>
   \<exists>s'. gen_iter W H rs n s = Some s' \<and> gen_inv W H st s' \<and>
        visited_cells W H (grid s) \<subseteq> visited_cells W H (grid s')"
proof (induction n arbitrary: s)
  case 0
  then show ?case by simp
next
  case (Suc n)
  show ?case
  proof (cases "0 < top_of s")
    case True
    from gen_step_inv[OF Suc.prems True, of rs] obtain s1 where
      s1: "gen_step W H rs s = Some s1" "gen_inv W H st s1"
        "visited_cells W H (grid s) \<subseteq> visited_cells W H (grid s1)"
      by blast
    from Suc.IH[OF s1(2)] obtain s' where
      "gen_iter W H rs n s1 = Some s'" "gen_inv W H st s'"
      "visited_cells W H (grid s1) \<subseteq> visited_cells W H (grid s')"
      by blast
    with True s1 show ?thesis by auto
  next
    case False
    with Suc.prems show ?thesis by auto
  qed
qed

section \<open>The generated maze\<close>

lemma wf_maze_init: "wf_grid W H (maze_init W H)"
  by (simp add: wf_grid_def maze_init_def)

lemma cell_at_maze_init:
  "is_cell W H a \<Longrightarrow>
   cell_at (maze_init W H) (fst a) (snd a)
     = \<lparr>walls = WALL_N OR WALL_E OR WALL_S OR WALL_W, visited = False\<rparr>"
proof -
  assume "is_cell W H a"
  then have "nat (snd a) < H" "nat (fst a) < W"
    by (auto simp: is_cell_def in_bounds_def)
  then show ?thesis by (simp add: cell_at_def maze_init_def)
qed

lemma has_wall_maze_init: "is_cell W H a \<Longrightarrow> has_wall (maze_init W H) a d"
  by (cases d) (simp_all add: has_wall_def cell_at_maze_init WALL_N_def WALL_E_def WALL_S_def WALL_W_def)

lemma is_visited_maze_init: "is_cell W H a \<Longrightarrow> \<not> is_visited (maze_init W H) a"
  by (simp add: is_visited_def cell_at_maze_init)

lemma wf_clear_visited: "wf_grid W H g \<Longrightarrow> wf_grid W H (clear_visited g)"
  by (simp add: wf_grid_shape clear_visited_def comp_def)

lemma cell_at_clear_visited:
  "wf_grid W H g \<Longrightarrow> is_cell W H a \<Longrightarrow>
   cell_at (clear_visited g) (fst a) (snd a) = (cell_at g (fst a) (snd a))\<lparr>visited := False\<rparr>"
proof -
  assume wf: "wf_grid W H g" and "is_cell W H a"
  then have y: "nat (snd a) < length g"
    by (auto simp: is_cell_def in_bounds_def wf_grid_def)
  with wf \<open>is_cell W H a\<close> have "nat (fst a) < length (g ! nat (snd a))"
    by (auto simp: is_cell_def in_bounds_def wf_grid_def)
  with y show ?thesis by (simp add: cell_at_def clear_visited_def)
qed

lemma clear_visited_all: "row \<in> set (clear_visited g) \<Longrightarrow> c \<in> set row \<Longrightarrow> \<not> visited c"
  by (auto simp: clear_visited_def)

lemma has_wall_clear_visited:
  "wf_grid W H g \<Longrightarrow> is_cell W H a \<Longrightarrow> has_wall (clear_visited g) a d = has_wall g a d"
  by (simp add: has_wall_def cell_at_clear_visited)

lemma no_passage_cycle:
  assumes "\<And>x y. \<not> R x y"
  shows "\<not> cycle R cs"
proof
  assume "cycle R cs"
  then have "0 < length cs" "\<forall>i < length cs. R (cs ! i) (cs ! (Suc i mod length cs))"
    by (auto simp: cycle_def)
  then have "R (cs ! 0) (cs ! (Suc 0 mod length cs))" by blast
  with assms show False by blast
qed

lemma gen_start_inv:
  assumes st: "is_cell W H (sx, sy)"
    and wf: "wf_grid W H g"
    and unv: "\<And>c. is_cell W H c \<Longrightarrow> \<not> is_visited g c"
    and wall: "\<And>c d. is_cell W H c \<Longrightarrow> has_wall g c d"
  shows "\<exists>s0. gen_start W H g sx sy k = Some s0 \<and> gen_inv W H (sx, sy) s0 \<and>
           stack s0 = [(sx, sy)] \<and> calls s0 = k"
proof -
  from set_visited_wf[OF wf st, of True] obtain g0 where
    sv: "set_visited g sx sy True = Some g0" and
    g0: "wf_grid W H g0"
      "\<And>c. is_cell W H c \<Longrightarrow> is_visited g0 c = (if c = (sx, sy) then True else is_visited g c)"
      "\<And>c e. is_cell W H c \<Longrightarrow> has_wall g0 c e = has_wall g c e"
    by auto
  define s0 where "s0 = \<lparr>grid = g0, stack = [(sx, sy)], calls = k\<rparr>"
  from st have "0 < W * H" by (auto simp: is_cell_def in_bounds_def)
  with sv have start: "gen_start W H g sx sy k = Some s0"
    by (simp add: gen_start_def s0_def)
  have V: "visited_cells W H g0 = {(sx, sy)}"
    using st by (auto simp: visited_cells_def g0(2) unv split: if_splits)
  have nopas: "\<not> passage W H g0 x y" for x y
    by (auto simp: passage_def g0(3) wall)
  then have pe: "passages W H g0 = {}" by (auto simp: passages_def)
  have rec: "reciprocal W H g0"
    unfolding reciprocal_def by (simp add: g0(3) wall)
  have acy: "acyclic_maze W H g0"
    unfolding acyclic_maze_def using no_passage_cycle[of "passage W H g0"] nopas by blast
  have "gen_inv W H (sx, sy) s0"
    unfolding gen_inv_def s0_def using g0(1) rec acy nopas
    by (simp add: V pe)
  with start show ?thesis by (simp add: s0_def)
qed

lemma gen_inv_final:
  assumes inv: "gen_inv W H st s" and e: "top_of s = 0"
  shows "visited_cells W H (grid s) = {a. is_cell W H a}"
proof -
  let ?V = "visited_cells W H (grid s)"
  from inv have st: "st \<in> ?V" by (simp add: gen_inv_def)
  then have cst: "is_cell W H st" by (simp add: visited_cells_def)
  from e have em: "stack s = []" by (simp add: top_of_def)
  have closed: "towards a d \<in> ?V" if "a \<in> ?V" "is_cell W H (towards a d)" for a d
    using inv that unfolding gen_inv_def em by simp
  have "c \<in> ?V" if "is_cell W H c" for c
    using cst st closed that by (rule closed_all_cells)
  then show ?thesis by (auto simp: visited_cells_def)
qed

lemma maze_generate_correct:
  assumes st: "is_cell W H (sx, sy)"
  shows "\<exists>g' k'. maze_generate W H rs k (maze_init W H) sx sy = Some (g', k') \<and>
           wf_grid W H g' \<and> reciprocal W H g' \<and> connected_from W H g' (sx, sy) \<and>
           acyclic_maze W H g' \<and> card (passages W H g') = W * H - 1 \<and>
           (\<forall>row \<in> set g'. \<forall>c \<in> set row. \<not> visited c)"
proof -
  from gen_start_inv[OF st wf_maze_init is_visited_maze_init has_wall_maze_init, of k]
  obtain s0 where s0: "gen_start W H (maze_init W H) sx sy k = Some s0"
    "gen_inv W H (sx, sy) s0"
    by blast
  from gen_loop_inv[OF s0(2), of rs] obtain s where
    s: "gen_loop W H rs s0 = Some s" "gen_inv W H (sx, sy) s" "top_of s = 0"
    by blast
  let ?g' = "clear_visited (grid s)"
  from s0(1) s(1) have mg: "maze_generate W H rs k (maze_init W H) sx sy = Some (?g', calls s)"
    by (simp add: maze_generate_def)
  from s(2) have wf: "wf_grid W H (grid s)" by (simp add: gen_inv_def)
  have V: "visited_cells W H (grid s) = {a. is_cell W H a}"
    using s(2,3) by (rule gen_inv_final)
  have pas: "passage W H ?g' = passage W H (grid s)"
    by (rule passage_cong) (rule has_wall_clear_visited[OF wf])
  then have pass: "passages W H ?g' = passages W H (grid s)"
    by (simp add: passages_def)
  from s(2) have "reciprocal W H (grid s)" by (simp add: gen_inv_def)
  then have 1: "reciprocal W H ?g'"
    unfolding reciprocal_def by (simp add: has_wall_clear_visited[OF wf])
  from s(2) have "\<forall>c \<in> visited_cells W H (grid s). (passage W H (grid s))\<^sup>*\<^sup>* (sx, sy) c"
    unfolding gen_inv_def by blast
  then have 2: "connected_from W H ?g' (sx, sy)"
    unfolding connected_from_def pas V by blast
  from s(2) have 3: "acyclic_maze W H ?g'"
    unfolding acyclic_maze_def pas gen_inv_def by blast
  from s(2) have "card (passages W H (grid s)) + 1 = card (visited_cells W H (grid s))"
    unfolding gen_inv_def by blast
  then have 4: "card (passages W H ?g') = W * H - 1"
    unfolding pass V card_cells by simp
  have 5: "\<forall>row \<in> set ?g'. \<forall>c \<in> set row. \<not> visited c"
    using clear_visited_all by blast
  from mg wf_clear_visited[OF wf] 1 2 3 4 5 show ?thesis by blast
qed

section \<open>Movement\<close>

lemma unit_cardinal_dir: "unit_cardinal dx dy \<longleftrightarrow> (\<exists>d. dx = dx_of d \<and> dy = dy_of d)"
proof
  assume "unit_cardinal dx dy"
  then consider "dx = 0" "dy = - 1" | "dx = 1" "dy = 0" | "dx = 0" "dy = 1" | "dx = - 1" "dy = 0"
    by (auto simp: unit_cardinal_def)
  then show "\<exists>d. dx = dx_of d \<and> dy = dy_of d"
  proof cases
    case 1 then show ?thesis by (intro exI[of _ North]) simp
  next
    case 2 then show ?thesis by (intro exI[of _ East]) simp
  next
    case 3 then show ?thesis by (intro exI[of _ South]) simp
  next
    case 4 then show ?thesis by (intro exI[of _ West]) simp
  qed
next
  assume "\<exists>d. dx = dx_of d \<and> dy = dy_of d"
  then obtain d where "dx = dx_of d" "dy = dy_of d" by blast
  then show "unit_cardinal dx dy"
    by (cases d) (simp_all add: unit_cardinal_def)
qed

lemma side_bit_dir: "side_bit (dx_of d) (dy_of d) = wall_of d"
  by (cases d) (simp_all add: side_bit_def)

lemma try_move_dir:
  assumes "wf_grid W H g" "is_cell W H a"
  shows "try_move W H g (fst a) (snd a) (dx_of d) (dy_of d) =
           (if \<not> is_cell W H (towards a d) \<or> has_wall g a d
            then Some (False, fst a, snd a)
            else Some (True, fst (towards a d), snd (towards a d)))"
proof -
  from assms have "cell_get g (fst a) (snd a) = Some (cell_at g (fst a) (snd a))"
    by (simp add: cell_get_def wf_in_array is_cell_def)
  then show ?thesis
    by (cases d) (auto simp: try_move_def Let_def is_cell_def towards_def has_wall_def)
qed

section \<open>A maze of two by two cells\<close>

lemma tiny_maze_generated:
  "maze_generate 2 2 (\<lambda>i. i) 0 (maze_init 2 2) 0 0 = Some (tiny_maze, 3)"
  by code_simp

lemma wf_tiny_maze: "wf_grid 2 2 tiny_maze"
  by (simp add: wf_grid_def tiny_maze_def)

lemma reciprocal_tiny_maze: "reciprocal 2 2 tiny_maze"
  using maze_generate_correct[of 2 2 0 0 "\<lambda>i. i" 0]
  by (simp add: tiny_maze_generated is_cell_def in_bounds_def)

section \<open>The carving loop, state by state\<close>

lemma unit_cardinal_towards:
  assumes "unit_cardinal (nx - x) (ny - y)"
  obtains d where "(nx, ny) = towards (x, y) d"
proof -
  from assms obtain d where "nx - x = dx_of d" "ny - y = dy_of d"
    by (auto simp: unit_cardinal_dir)
  then have "(nx, ny) = towards (x, y) d" by (simp add: towards_def)
  then show ?thesis by (rule that)
qed

lemma knock_down_reciprocal:
  assumes wf: "wf_grid W H g" and r: "reciprocal W H g"
    and a: "in_bounds W H x y" and b: "in_bounds W H nx ny"
    and adj: "unit_cardinal (nx - x) (ny - y)"
  shows "\<exists>g'. knock_down g x y nx ny = Some g' \<and> wf_grid W H g' \<and> reciprocal W H g'"
proof -
  from adj obtain d where d: "(nx, ny) = towards (x, y) d"
    by (rule unit_cardinal_towards)
  from a have ca: "is_cell W H (x, y)" by (simp add: is_cell_def)
  from b have "is_cell W H (nx, ny)" by (simp add: is_cell_def)
  then have cb: "is_cell W H (towards (x, y) d)" unfolding d .
  from knock_down_wf[OF wf ca cb] obtain g' where
    kd: "knock_down g (fst (x, y)) (snd (x, y)) (fst (towards (x, y) d)) (snd (towards (x, y) d)) = Some g'"
    and g': "wf_grid W H g'"
      "\<And>c e. is_cell W H c \<Longrightarrow>
         has_wall g' c e =
           (has_wall g c e \<and> \<not> (c = (x, y) \<and> e = d) \<and> \<not> (c = towards (x, y) d \<and> e = opposite d))"
    by blast
  from g'(2) r have "reciprocal W H g'" by (rule reciprocal_knock)
  moreover from kd have "knock_down g x y nx ny = Some g'"
    unfolding d[symmetric] by simp
  ultimately show ?thesis using g'(1) by blast
qed

lemma reciprocal_maze_init: "reciprocal W H (maze_init W H)"
  unfolding reciprocal_def by (simp add: has_wall_maze_init)

lemma gen_iter_done: "top_of s = 0 \<Longrightarrow> gen_iter W H rs n s = Some s"
  by (cases n) simp_all

lemma gen_iter_add:
  "gen_iter W H rs (m + j) s =
     (case gen_iter W H rs m s of None \<Rightarrow> None | Some s1 \<Rightarrow> gen_iter W H rs j s1)"
proof (induction m arbitrary: s)
  case 0
  show ?case by simp
next
  case (Suc m)
  show ?case
  proof (cases "0 < top_of s")
    case True
    then show ?thesis by (simp add: Suc.IH split: option.splits)
  next
    case False
    then show ?thesis by (simp add: gen_iter_done)
  qed
qed

lemma gen_loop_iter:
  "gen_loop W H rs s = Some s' \<Longrightarrow> \<exists>n. gen_iter W H rs n s = Some s'"
proof (induction W H rs s rule: gen_loop.induct)
  case (1 W H rs s)
  show ?case
  proof (cases "0 < top_of s")
    case True
    with "1.prems" obtain s1 where s1: "gen_step W H rs s = Some s1"
      "gen_loop W H rs s1 = Some s'"
      by (subst (asm) gen_loop.simps) (auto split: option.splits)
    from "1.IH"[OF True s1] obtain n where "gen_iter W H rs n s1 = Some s'" by blast
    with True s1(1) have "gen_iter W H rs (Suc n) s = Some s'" by simp
    then show ?thesis by blast
  next
    case False
    with "1.prems" have "s' = s" by (subst (asm) gen_loop.simps) simp
    then have "gen_iter W H rs 0 s = Some s'" by simp
    then show ?thesis by blast
  qed
qed

lemma gen_start_maze_init:
  assumes "in_bounds W H sx sy"
  shows "\<exists>s0. gen_start W H (maze_init W H) sx sy k = Some s0 \<and> gen_inv W H (sx, sy) s0"
proof -
  from assms have "is_cell W H (sx, sy)" by (simp add: is_cell_def)
  from gen_start_inv[OF this wf_maze_init is_visited_maze_init has_wall_maze_init, of k]
  show ?thesis by blast
qed

lemma maze_generate_returns:
  assumes "0 < W" "0 < H"
  shows "\<exists>g' k'. maze_generate W H rs k (maze_init W H) 0 0 = Some (g', k')"
proof -
  from assms have "is_cell W H (0, 0)" by (simp add: is_cell_def in_bounds_def)
  from maze_generate_correct[OF this, of rs k] show ?thesis by blast
qed

subsection \<open>From any grid\<close>

lemma gen_step_safe:
  assumes inv: "gen_safe W H s" and ne: "0 < top_of s"
  shows "\<exists>s'. gen_step W H rs s = Some s' \<and> gen_safe W H s' \<and>
           visited_cells W H (grid s) \<subseteq> visited_cells W H (grid s')"
proof -
  from ne obtain x y rest where st: "stack s = (x, y) # rest"
    by (cases "stack s") (auto simp: top_of_def)
  define neigh where "neigh = filter (\<lambda>p. is_cell W H p \<and> \<not> is_visited (grid s) p) (candidates x y)"
  from inv have wf: "wf_grid W H (grid s)"
    and sub: "set (stack s) \<subseteq> visited_cells W H (grid s)"
    and dist: "distinct (stack s)"
    by (simp_all add: gen_safe_def)
  from sub st have ca: "is_cell W H (x, y)" by (simp add: visited_cells_def)
  have col: "collect W H (grid s) (candidates x y) = Some neigh"
    unfolding neigh_def using wf by (rule collect_wf)
  show ?thesis
  proof (cases "neigh = []")
    case True
    have "gen_step W H rs s = Some (s\<lparr>stack := rest\<rparr>)"
      using True by (simp add: gen_step_def st col)
    moreover have "gen_safe W H (s\<lparr>stack := rest\<rparr>)"
      using wf sub dist st by (simp add: gen_safe_def)
    moreover have "grid (s\<lparr>stack := rest\<rparr>) = grid s" by simp
    ultimately show ?thesis by (intro exI[of _ "s\<lparr>stack := rest\<rparr>"]) simp
  next
    case False
    define p where "p = neigh ! (rs (calls s) mod length neigh)"
    from False have "0 < length neigh" by simp
    then have "rs (calls s) mod length neigh < length neigh" by (rule mod_less_divisor)
    then have "p \<in> set neigh" unfolding p_def by (rule nth_mem)
    then have p: "is_cell W H p" "\<not> is_visited (grid s) p" and pc: "p \<in> set (candidates x y)"
      by (simp_all add: neigh_def)
    from pc obtain d where d: "p = towards (x, y) d"
      by (rule candidates_towardsE)
    from p(1) d have cn: "is_cell W H (towards (x, y) d)" by simp
    from knock_down_wf[OF wf ca cn] obtain g1 where
      kd0: "knock_down (grid s) (fst (x, y)) (snd (x, y)) (fst (towards (x, y) d)) (snd (towards (x, y) d)) = Some g1" and
      g1: "wf_grid W H g1"
        "\<And>c. is_cell W H c \<Longrightarrow> is_visited g1 c = is_visited (grid s) c"
      by blast
    from kd0 d have kd: "knock_down (grid s) x y (fst p) (snd p) = Some g1" by simp
    from set_visited_wf[OF g1(1) p(1), of True] obtain g2 where
      sv: "set_visited g1 (fst p) (snd p) True = Some g2" and
      g2: "wf_grid W H g2"
        "\<And>c. is_cell W H c \<Longrightarrow> is_visited g2 c = (if c = p then True else is_visited g1 c)"
      by blast
    define s' where "s' = \<lparr>grid = g2, stack = p # stack s, calls = calls s + 1\<rparr>"
    have V': "visited_cells W H g2 = insert p (visited_cells W H (grid s))"
      using p(1) by (auto simp: visited_cells_def g2(2) g1(2))
    from p have pV: "p \<notin> visited_cells W H (grid s)" by (simp add: visited_cells_def)
    have sub': "set (p # stack s) \<subseteq> visited_cells W H g2" using sub V' by auto
    have dist': "distinct (p # stack s)" using dist sub pV by auto
    from stack_bound[OF sub' dist'] have cap: "top_of s < W * H" by (simp add: top_of_def)
    have "gen_step W H rs s = Some s'"
      using False cap kd sv
      by (simp add: gen_step_def st col Let_def case_prod_beta p_def[symmetric] s'_def)
    moreover have "gen_safe W H s'"
      using g2(1) sub' dist' by (simp add: gen_safe_def s'_def)
    moreover have "visited_cells W H (grid s) \<subseteq> visited_cells W H (grid s')"
      using V' by (auto simp: s'_def)
    ultimately show ?thesis by blast
  qed
qed

lemma gen_loop_safe:
  "gen_safe W H s \<Longrightarrow>
   \<exists>s'. gen_loop W H rs s = Some s' \<and> gen_safe W H s' \<and> top_of s' = 0"
proof (induction W H rs s rule: gen_loop.induct)
  case (1 W H rs s)
  show ?case
  proof (cases "0 < top_of s")
    case True
    from gen_step_safe[OF "1.prems" True, of rs] obtain s1 where
      s1: "gen_step W H rs s = Some s1" "gen_safe W H s1"
      by blast
    from "1.IH"[OF True s1(1) s1(2)] obtain s' where
      "gen_loop W H rs s1 = Some s'" "gen_safe W H s'" "top_of s' = 0"
      by blast
    with True s1 show ?thesis by (subst gen_loop.simps) auto
  next
    case False
    with "1.prems" show ?thesis by (subst gen_loop.simps) auto
  qed
qed

lemma gen_iter_safe:
  "gen_safe W H s \<Longrightarrow>
   \<exists>s'. gen_iter W H rs n s = Some s' \<and> gen_safe W H s' \<and>
        visited_cells W H (grid s) \<subseteq> visited_cells W H (grid s')"
proof (induction n arbitrary: s)
  case 0
  then show ?case by simp
next
  case (Suc n)
  show ?case
  proof (cases "0 < top_of s")
    case True
    from gen_step_safe[OF Suc.prems True, of rs] obtain s1 where
      s1: "gen_step W H rs s = Some s1" "gen_safe W H s1"
        "visited_cells W H (grid s) \<subseteq> visited_cells W H (grid s1)"
      by blast
    from Suc.IH[OF s1(2)] obtain s' where
      "gen_iter W H rs n s1 = Some s'" "gen_safe W H s'"
      "visited_cells W H (grid s1) \<subseteq> visited_cells W H (grid s')"
      by blast
    with True s1 show ?thesis by auto
  next
    case False
    with Suc.prems show ?thesis by auto
  qed
qed

lemma gen_start_safe:
  assumes wf: "wf_grid W H g" and st: "in_bounds W H sx sy"
  shows "\<exists>s0. gen_start W H g sx sy k = Some s0 \<and> gen_safe W H s0"
proof -
  from st have c: "is_cell W H (sx, sy)" by (simp add: is_cell_def)
  from set_visited_wf[OF wf c, of True] obtain g0 where
    sv: "set_visited g sx sy True = Some g0" and
    g0: "wf_grid W H g0"
      "\<And>c. is_cell W H c \<Longrightarrow> is_visited g0 c = (if c = (sx, sy) then True else is_visited g c)"
    by auto
  define s0 where "s0 = \<lparr>grid = g0, stack = [(sx, sy)], calls = k\<rparr>"
  from st have "0 < W * H" by (auto simp: in_bounds_def)
  with sv have "gen_start W H g sx sy k = Some s0"
    by (simp add: gen_start_def s0_def)
  moreover have "gen_safe W H s0"
    using g0 c by (simp add: gen_safe_def s0_def visited_cells_def)
  ultimately show ?thesis by blast
qed

lemma is_visited_clear_visited:
  "wf_grid W H g \<Longrightarrow> is_cell W H c \<Longrightarrow> \<not> is_visited (clear_visited g) c"
  by (simp add: is_visited_def cell_at_clear_visited)

lemma wf_marked_grid: "wf_grid 2 2 marked_grid"
  by (simp add: wf_grid_def marked_grid_def)

lemma marked_maze_generated:
  "maze_generate 2 2 (\<lambda>i. i) 0 marked_grid 0 0 =
     Some ([[\<lparr>walls = 11, visited = False\<rparr>, \<lparr>walls = 15, visited = False\<rparr>],
            [\<lparr>walls = 12, visited = False\<rparr>, \<lparr>walls = 7, visited = False\<rparr>]], 2)"
  by code_simp

section \<open>Walking the maze\<close>

lemma walk_append:
  "walk W H g p (ds @ es) =
     (case walk W H g p ds of None \<Rightarrow> None | Some q \<Rightarrow> walk W H g q es)"
  by (induction W H g p ds rule: walk.induct) (auto split: option.splits)

lemma unit_cardinal_of_dir: "unit_cardinal (dx_of d) (dy_of d)"
  unfolding unit_cardinal_dir by blast

lemma passage_try_move:
  assumes "wf_grid W H g" "passage W H g a b"
  shows "\<exists>d. b = towards a d \<and> is_cell W H a \<and> is_cell W H b \<and> \<not> has_wall g a d \<and>
           try_move W H g (fst a) (snd a) (dx_of d) (dy_of d) = Some (True, fst b, snd b)"
proof -
  from assms(2) obtain d where d: "is_cell W H a" "is_cell W H b" "b = towards a d"
    "\<not> has_wall g a d"
    by (auto simp: passage_def)
  with try_move_dir[OF assms(1) d(1), of d] show ?thesis by auto
qed

lemma handle_events_append:
  "handle_events W H rs (es @ fs) S =
     (case handle_events W H rs es S of None \<Rightarrow> None | Some S' \<Rightarrow> handle_events W H rs fs S')"
  by (induction es arbitrary: S) (auto split: option.splits)

lemma handle_arrow:
  assumes wf: "wf_grid W H (maze S)" and nw: "\<not> won S"
    and a: "a = (player_x S, player_y S)" "is_cell W H a"
    and b: "is_cell W H (towards a d)" "\<not> has_wall (maze S) a d"
  shows "\<exists>S'. handle_event W H rs (SDL_KEYDOWN (arrow d)) S = Some S' \<and> maze S' = maze S \<and>
           (player_x S', player_y S') = towards a d \<and>
           (won S' \<longleftrightarrow> towards a d = (int W - 1, int H - 1))"
proof -
  from try_move_dir[OF wf a(2), of d] b a(1)
  have "try_move W H (maze S) (player_x S) (player_y S) (dx_of d) (dy_of d)
          = Some (True, fst (towards a d), snd (towards a d))"
    by simp
  then have "move W H S (dx_of d) (dy_of d)
          = Some (S\<lparr>player_x := fst (towards a d), player_y := snd (towards a d)\<rparr>)"
    by (simp add: move_def case_prod_beta)
  with nw show ?thesis
    by (cases d) (auto simp: handle_event_def prod_eq_iff)
qed

lemma handle_arrow_won:
  "won S \<Longrightarrow> handle_event W H rs (SDL_KEYDOWN (arrow d)) S = Some S"
  by (cases d) (simp_all add: handle_event_def)

lemma path_keys:
  assumes wf: "wf_grid W H g" and path: "(passage W H g)\<^sup>*\<^sup>* a b"
    and a: "a \<noteq> (int W - 1, int H - 1)"
  shows "\<exists>ds. walk W H g a (map (\<lambda>d. (dx_of d, dy_of d)) ds) = Some b \<and>
           (\<forall>S. maze S = g \<and> (player_x S, player_y S) = a \<and> \<not> won S \<longrightarrow>
              (\<exists>S'. handle_events W H rs (map (\<lambda>d. SDL_KEYDOWN (arrow d)) ds) S = Some S' \<and>
                 maze S' = g \<and>
                 (if won S' then (player_x S', player_y S') = (int W - 1, int H - 1)
                  else (player_x S', player_y S') = b \<and> b \<noteq> (int W - 1, int H - 1))))"
  using path
proof (induction rule: rtranclp_induct)
  case base
  have "walk W H g a (map (\<lambda>d. (dx_of d, dy_of d)) []) = Some a" by simp
  moreover have "\<exists>S'. handle_events W H rs (map (\<lambda>d. SDL_KEYDOWN (arrow d)) []) S = Some S' \<and>
                 maze S' = g \<and>
                 (if won S' then (player_x S', player_y S') = (int W - 1, int H - 1)
                  else (player_x S', player_y S') = a \<and> a \<noteq> (int W - 1, int H - 1))"
    if "maze S = g \<and> (player_x S, player_y S) = a \<and> \<not> won S" for S
    using that a by (intro exI[of _ S]) simp
  ultimately show ?case by blast
next
  case (step y z)
  then obtain ds where
    w: "walk W H g a (map (\<lambda>d. (dx_of d, dy_of d)) ds) = Some y" and
    e: "\<And>S. maze S = g \<and> (player_x S, player_y S) = a \<and> \<not> won S \<Longrightarrow>
          \<exists>S'. handle_events W H rs (map (\<lambda>d. SDL_KEYDOWN (arrow d)) ds) S = Some S' \<and>
             maze S' = g \<and>
             (if won S' then (player_x S', player_y S') = (int W - 1, int H - 1)
              else (player_x S', player_y S') = y \<and> y \<noteq> (int W - 1, int H - 1))"
    by blast
  from passage_try_move[OF wf step.hyps(2)] obtain d where
    d: "z = towards y d" "is_cell W H y" "is_cell W H z" "\<not> has_wall g y d"
      "try_move W H g (fst y) (snd y) (dx_of d) (dy_of d) = Some (True, fst z, snd z)"
    by blast
  have "walk W H g a (map (\<lambda>d. (dx_of d, dy_of d)) (ds @ [d])) = Some z"
    by (simp add: walk_append w d(5))
  moreover have "\<exists>S'. handle_events W H rs (map (\<lambda>d. SDL_KEYDOWN (arrow d)) (ds @ [d])) S = Some S' \<and>
                 maze S' = g \<and>
                 (if won S' then (player_x S', player_y S') = (int W - 1, int H - 1)
                  else (player_x S', player_y S') = z \<and> z \<noteq> (int W - 1, int H - 1))"
    if S: "maze S = g \<and> (player_x S, player_y S) = a \<and> \<not> won S" for S
  proof -
    from e[OF S] obtain S1 where
      1: "handle_events W H rs (map (\<lambda>d. SDL_KEYDOWN (arrow d)) ds) S = Some S1" "maze S1 = g"
        "if won S1 then (player_x S1, player_y S1) = (int W - 1, int H - 1)
         else (player_x S1, player_y S1) = y \<and> y \<noteq> (int W - 1, int H - 1)"
      by blast
    show ?thesis
    proof (cases "won S1")
      case True
      have "handle_events W H rs (map (\<lambda>d. SDL_KEYDOWN (arrow d)) (ds @ [d])) S = Some S1"
        by (simp add: handle_events_append 1(1) handle_arrow_won[OF True])
      with True 1 show ?thesis by (intro exI[of _ S1]) simp
    next
      case False
      with 1(3) have y: "y = (player_x S1, player_y S1)" by simp
      from wf 1(2) have wf1: "wf_grid W H (maze S1)" by simp
      from d(1,3,4) have dz: "is_cell W H (towards y d)" "\<not> has_wall (maze S1) y d"
        by (simp_all add: 1(2))
      from handle_arrow[OF wf1 False y d(2) dz, of rs] obtain S2 where
        2: "handle_event W H rs (SDL_KEYDOWN (arrow d)) S1 = Some S2" "maze S2 = maze S1"
          "(player_x S2, player_y S2) = towards y d"
          "won S2 \<longleftrightarrow> towards y d = (int W - 1, int H - 1)"
        by blast
      have "handle_events W H rs (map (\<lambda>d. SDL_KEYDOWN (arrow d)) (ds @ [d])) S = Some S2"
        by (simp add: handle_events_append 1(1) 2(1))
      with 2 1(2) d(1) show ?thesis by (intro exI[of _ S2]) simp
    qed
  qed
  ultimately show ?case by blast
qed

section \<open>The claims\<close>

text \<open>
  Claim C1. After \<open>maze_init\<close> and \<open>maze_generate(0, 0)\<close>, for every random stream,
  the call returns, and the cells with the passages between them form a spanning tree of
  the grid: every cell is reached from \<open>(0,0)\<close> through passages, no cycle of passages
  exists, and there are exactly \<open>W * H - 1\<close> passages.
\<close>

theorem maze_is_spanning_tree:
  assumes "0 < W" "0 < H"
  shows "\<exists>g' k'. maze_generate W H rs k (maze_init W H) 0 0 = Some (g', k') \<and>
           spanning_tree W H g'"
proof -
  from assms have "is_cell W H (0, 0)" by (simp add: is_cell_def in_bounds_def)
  from maze_generate_correct[OF this, of rs k] show ?thesis
    unfolding spanning_tree_def by blast
qed

theorem maze_is_spanning_tree_witness:
  "spanning_tree 2 2 tiny_maze \<and>
   (\<exists>g' k'. maze_generate MAZE_W MAZE_H (\<lambda>i. i) 0 (maze_init MAZE_W MAZE_H) 0 0 = Some (g', k') \<and>
      spanning_tree MAZE_W MAZE_H g')"
proof -
  have two: "0 < (2::nat)" by simp
  have "spanning_tree 2 2 tiny_maze"
    using maze_is_spanning_tree[OF two two, of "\<lambda>i. i" 0] by (simp add: tiny_maze_generated)
  moreover have "0 < MAZE_W" "0 < MAZE_H" by (simp_all add: MAZE_W_def MAZE_H_def)
  note maze_is_spanning_tree[OF this, of "\<lambda>i. i" 0]
  ultimately show ?thesis by simp
qed

text \<open>
  Claim C2. Wall reciprocity holds after \<open>maze_init\<close>; \<open>knock_down\<close> on two adjacent
  cells of a grid where it holds returns a grid where it holds; and it holds in the grid
  that \<open>maze_generate\<close> returns from a \<open>maze_init\<close> grid and a start cell in bounds.
\<close>

theorem wall_reciprocity:
  "reciprocal W H (maze_init W H) \<and>
   (\<forall>g x y nx ny.
      wf_grid W H g \<and> reciprocal W H g \<and> in_bounds W H x y \<and> in_bounds W H nx ny \<and>
      unit_cardinal (nx - x) (ny - y) \<longrightarrow>
      (\<exists>g'. knock_down g x y nx ny = Some g' \<and> wf_grid W H g' \<and> reciprocal W H g')) \<and>
   (\<forall>rs k sx sy.
      in_bounds W H sx sy \<longrightarrow>
      (\<exists>g' k'. maze_generate W H rs k (maze_init W H) sx sy = Some (g', k') \<and>
         wf_grid W H g' \<and> reciprocal W H g'))"
proof (intro conjI allI impI)
  show "reciprocal W H (maze_init W H)" by (rule reciprocal_maze_init)
next
  fix g x y nx ny
  assume "wf_grid W H g \<and> reciprocal W H g \<and> in_bounds W H x y \<and> in_bounds W H nx ny \<and>
      unit_cardinal (nx - x) (ny - y)"
  then show "\<exists>g'. knock_down g x y nx ny = Some g' \<and> wf_grid W H g' \<and> reciprocal W H g'"
    using knock_down_reciprocal by blast
next
  fix rs k sx sy
  assume "in_bounds W H sx sy"
  then have "is_cell W H (sx, sy)" by (simp add: is_cell_def)
  from maze_generate_correct[OF this, of rs k]
  show "\<exists>g' k'. maze_generate W H rs k (maze_init W H) sx sy = Some (g', k') \<and>
         wf_grid W H g' \<and> reciprocal W H g'"
    by blast
qed

theorem wall_reciprocity_witness:
  "reciprocal 2 2 (maze_init 2 2) \<and>
   (\<exists>g'. knock_down (maze_init 2 2) 0 0 1 0 = Some g' \<and> wf_grid 2 2 g' \<and> reciprocal 2 2 g') \<and>
   reciprocal 2 2 tiny_maze"
proof -
  note w = wall_reciprocity[of 2 2]
  from w have a: "reciprocal 2 2 (maze_init 2 2)" by (rule conjunct1)
  have h: "wf_grid 2 2 (maze_init 2 2) \<and> reciprocal 2 2 (maze_init 2 2) \<and> in_bounds 2 2 0 0 \<and>
      in_bounds 2 2 1 0 \<and> unit_cardinal (1 - 0) (0 - 0)"
    using a by (simp add: wf_maze_init in_bounds_def unit_cardinal_def)
  from w[THEN conjunct2, THEN conjunct1, rule_format, OF h]
  have b: "\<exists>g'. knock_down (maze_init 2 2) 0 0 1 0 = Some g' \<and> wf_grid 2 2 g' \<and> reciprocal 2 2 g'" .
  have ib: "in_bounds 2 2 0 0" by (simp add: in_bounds_def)
  from w[THEN conjunct2, THEN conjunct2, rule_format, OF ib, of "\<lambda>i. i" 0]
  have c: "reciprocal 2 2 tiny_maze" by (simp add: tiny_maze_generated)
  from a b c show ?thesis by simp
qed

text \<open>
  Claim C3. For a player in bounds and a step of one cell along one axis, \<open>try_move\<close>
  returns false and leaves the player where it is when the target is out of bounds or the
  player's cell has the wall bit of that direction set; otherwise it returns true and puts
  the player on the target.
\<close>

theorem try_move_cardinal:
  assumes "wf_grid W H g" "in_bounds W H px py" "unit_cardinal dx dy"
  shows "try_move W H g px py dx dy =
           (if \<not> in_bounds W H (px + dx) (py + dy) \<or> walls (cell_at g px py) AND side_bit dx dy \<noteq> 0
            then Some (False, px, py)
            else Some (True, px + dx, py + dy))"
proof -
  from assms(3) obtain d where d: "dx = dx_of d" "dy = dy_of d"
    by (auto simp: unit_cardinal_dir)
  from assms(2) have "is_cell W H (px, py)" by (simp add: is_cell_def)
  from try_move_dir[OF assms(1) this, of d] show ?thesis
    by (simp add: d side_bit_dir is_cell_def towards_def has_wall_def)
qed

theorem try_move_cardinal_witness:
  "try_move 2 2 tiny_maze 0 0 1 0 = Some (True, 1, 0) \<and>
   try_move 2 2 tiny_maze 0 0 0 1 = Some (False, 0, 0) \<and>
   try_move 2 2 tiny_maze 0 0 (- 1) 0 = Some (False, 0, 0)"
proof -
  have ib: "in_bounds 2 2 0 0" by (simp add: in_bounds_def)
  have e: "unit_cardinal 1 0" and s: "unit_cardinal 0 1" and w: "unit_cardinal (- 1) 0"
    by (simp_all add: unit_cardinal_def)
  have "try_move 2 2 tiny_maze 0 0 1 0 = Some (True, 1, 0)"
    using try_move_cardinal[OF wf_tiny_maze ib e]
    by (simp add: in_bounds_def cell_at_def tiny_maze_def side_bit_def WALL_E_def)
  moreover have "try_move 2 2 tiny_maze 0 0 0 1 = Some (False, 0, 0)"
    using try_move_cardinal[OF wf_tiny_maze ib s]
    by (simp add: in_bounds_def cell_at_def tiny_maze_def side_bit_def WALL_S_def)
  moreover have "try_move 2 2 tiny_maze 0 0 (- 1) 0 = Some (False, 0, 0)"
    using try_move_cardinal[OF wf_tiny_maze ib w]
    by (simp add: in_bounds_def)
  ultimately show ?thesis by simp
qed

text \<open>
  Claim C4. From a \<open>maze_init\<close> grid and a start cell in bounds, every state of the loop
  of \<open>maze_generate\<close> has \<open>top \<le> W * H\<close>, no push falls outside the buffer (every
  iteration yields a state), and the states listed are those of the loop: one of them has
  an empty stack and is the state the loop ends in.
\<close>

theorem stack_depth_bound:
  assumes "in_bounds W H sx sy"
  shows "\<exists>s0. gen_start W H (maze_init W H) sx sy k = Some s0 \<and>
           (\<forall>n. \<exists>s. gen_iter W H rs n s0 = Some s \<and> top_of s \<le> W * H) \<and>
           (\<exists>n s. gen_iter W H rs n s0 = Some s \<and> top_of s = 0 \<and> gen_loop W H rs s0 = Some s)"
proof -
  from gen_start_maze_init[OF assms, of k] obtain s0 where
    s0: "gen_start W H (maze_init W H) sx sy k = Some s0" "gen_inv W H (sx, sy) s0"
    by blast
  have "\<exists>s. gen_iter W H rs n s0 = Some s \<and> top_of s \<le> W * H" for n
    using gen_iter_inv[OF s0(2), of rs n] gen_inv_top by blast
  moreover from gen_loop_inv[OF s0(2), of rs] obtain s where
    s: "gen_loop W H rs s0 = Some s" "top_of s = 0"
    by blast
  from gen_loop_iter[OF s(1)] s have
    "\<exists>n s. gen_iter W H rs n s0 = Some s \<and> top_of s = 0 \<and> gen_loop W H rs s0 = Some s"
    by blast
  ultimately show ?thesis using s0(1) by blast
qed

theorem stack_depth_bound_witness:
  "in_bounds MAZE_W MAZE_H 0 0 \<and>
   (\<exists>s0. gen_start MAZE_W MAZE_H (maze_init MAZE_W MAZE_H) 0 0 0 = Some s0 \<and>
      (\<forall>n. \<exists>s. gen_iter MAZE_W MAZE_H (\<lambda>i. i) n s0 = Some s \<and> top_of s \<le> MAZE_W * MAZE_H) \<and>
      (\<exists>n s. gen_iter MAZE_W MAZE_H (\<lambda>i. i) n s0 = Some s \<and> top_of s = 0 \<and>
         gen_loop MAZE_W MAZE_H (\<lambda>i. i) s0 = Some s)) \<and>
   (gen_start 2 2 (maze_init 2 2) 0 0 0 \<bind> gen_iter 2 2 (\<lambda>i. i) 3 \<bind> (\<lambda>s. Some (top_of s)))
     = Some (2 * 2)"
proof -
  have ib: "in_bounds MAZE_W MAZE_H 0 0" by (simp add: in_bounds_def MAZE_W_def MAZE_H_def)
  have "(gen_start 2 2 (maze_init 2 2) 0 0 0 \<bind> gen_iter 2 2 (\<lambda>i. i) 3 \<bind> (\<lambda>s. Some (top_of s)))
     = Some (2 * 2)"
    by code_simp
  with ib stack_depth_bound[OF ib, of 0 "\<lambda>i. i"] show ?thesis by blast
qed

text \<open>
  Claim C5. From any grid of \<open>H\<close> rows of \<open>W\<close> cells, whatever its flags, and a
  start cell in bounds, \<open>maze_generate\<close> returns a grid of the same shape in which every
  cell has \<open>visited = false\<close>: the post-pass applied to the state \<open>s_end\<close> the loop
  ends in. The flag of the start cell is set before the loop. While the loop runs, a cell
  that is visited in one state of the loop is visited in every later state and in
  \<open>s_end\<close>: a flag goes from false to true at most once and is cleared by the post-pass
  only.
\<close>

theorem visited_flags:
  assumes "wf_grid W H g" "in_bounds W H sx sy"
  shows "\<exists>s0 s_end g' k'.
           gen_start W H g sx sy k = Some s0 \<and>
           is_visited (grid s0) (sx, sy) \<and>
           gen_loop W H rs s0 = Some s_end \<and>
           (\<exists>N. gen_iter W H rs N s0 = Some s_end \<and> top_of s_end = 0) \<and>
           maze_generate W H rs k g sx sy = Some (g', k') \<and>
           g' = clear_visited (grid s_end) \<and>
           wf_grid W H g' \<and>
           (\<forall>c. is_cell W H c \<longrightarrow> \<not> is_visited g' c) \<and>
           (\<forall>m n. m \<le> n \<longrightarrow>
              (\<exists>s s'. gen_iter W H rs m s0 = Some s \<and> gen_iter W H rs n s0 = Some s' \<and>
                 (\<forall>c. is_cell W H c \<and> is_visited (grid s) c \<longrightarrow> is_visited (grid s') c))) \<and>
           (\<forall>m s c. gen_iter W H rs m s0 = Some s \<and> is_cell W H c \<and> is_visited (grid s) c \<longrightarrow>
              is_visited (grid s_end) c)"
proof -
  from gen_start_safe[OF assms, of k] obtain s0 where
    s0: "gen_start W H g sx sy k = Some s0" "gen_safe W H s0"
    by blast
  from s0(1) have stk: "stack s0 = [(sx, sy)]"
    by (auto simp: gen_start_def split: bind_splits if_splits)
  with s0(2) have v0: "is_visited (grid s0) (sx, sy)"
    by (simp add: gen_safe_def visited_cells_def)
  from gen_loop_safe[OF s0(2), of rs] obtain s_end where
    e: "gen_loop W H rs s0 = Some s_end" "gen_safe W H s_end" "top_of s_end = 0"
    by blast
  from gen_loop_iter[OF e(1)] obtain N where N: "gen_iter W H rs N s0 = Some s_end"
    by blast
  from e(2) have wfe: "wf_grid W H (grid s_end)" by (simp add: gen_safe_def)
  from s0(1) e(1)
  have mg: "maze_generate W H rs k g sx sy = Some (clear_visited (grid s_end), calls s_end)"
    by (simp add: maze_generate_def del: gen_loop.simps)
  have mono: "\<exists>s s'. gen_iter W H rs m s0 = Some s \<and> gen_iter W H rs n s0 = Some s' \<and>
          (\<forall>c. is_cell W H c \<and> is_visited (grid s) c \<longrightarrow> is_visited (grid s') c)"
    if "m \<le> n" for m n
  proof -
    from gen_iter_safe[OF s0(2), of rs m] obtain s where
      s: "gen_iter W H rs m s0 = Some s" "gen_safe W H s"
      by blast
    from gen_iter_safe[OF s(2), of rs "n - m"] obtain s' where
      s': "gen_iter W H rs (n - m) s = Some s'"
        "visited_cells W H (grid s) \<subseteq> visited_cells W H (grid s')"
      by blast
    from that have "n = m + (n - m)" by simp
    then have "gen_iter W H rs n s0 = Some s'"
      using gen_iter_add[of W H rs m "n - m" s0] s(1) s'(1) by simp
    moreover from s'(2) have
      "\<forall>c. is_cell W H c \<and> is_visited (grid s) c \<longrightarrow> is_visited (grid s') c"
      by (auto simp: visited_cells_def)
    ultimately show ?thesis using s(1) by blast
  qed
  have kept: "is_visited (grid s_end) c"
    if h: "gen_iter W H rs m s0 = Some s \<and> is_cell W H c \<and> is_visited (grid s) c" for m s c
  proof -
    have le: "m \<le> N + m" by simp
    have "gen_iter W H rs (N + m) s0 = Some s_end"
      by (simp add: gen_iter_add N gen_iter_done[OF e(3)])
    with mono[OF le] h show ?thesis by fastforce
  qed
  have clr: "\<forall>c. is_cell W H c \<longrightarrow> \<not> is_visited (clear_visited (grid s_end)) c"
    using is_visited_clear_visited[OF wfe] by blast
  from s0(1) v0 e(1) N e(3) mg wf_clear_visited[OF wfe] clr mono kept
  show ?thesis by blast
qed

theorem visited_flags_witness:
  "wf_grid 2 2 marked_grid \<and> in_bounds 2 2 0 0 \<and> is_visited marked_grid (1, 0) \<and>
   maze_generate 2 2 (\<lambda>i. i) 0 marked_grid 0 0 =
     Some ([[\<lparr>walls = 11, visited = False\<rparr>, \<lparr>walls = 15, visited = False\<rparr>],
            [\<lparr>walls = 12, visited = False\<rparr>, \<lparr>walls = 7, visited = False\<rparr>]], 2) \<and>
   (\<exists>s0 s_end g' k'.
      gen_start 2 2 marked_grid 0 0 0 = Some s0 \<and>
      gen_loop 2 2 (\<lambda>i. i) s0 = Some s_end \<and>
      is_visited (grid s_end) (0, 0) \<and> is_visited (grid s_end) (1, 0) \<and>
      maze_generate 2 2 (\<lambda>i. i) 0 marked_grid 0 0 = Some (g', k') \<and>
      g' = clear_visited (grid s_end) \<and> wf_grid 2 2 g' \<and>
      \<not> is_visited g' (0, 0) \<and> \<not> is_visited g' (1, 0)) \<and>
   (\<exists>s0 s_end g' k'.
      gen_start MAZE_W MAZE_H (maze_init MAZE_W MAZE_H) 0 0 0 = Some s0 \<and>
      is_visited (grid s0) (0, 0) \<and>
      gen_loop MAZE_W MAZE_H (\<lambda>i. i) s0 = Some s_end \<and>
      (\<exists>N. gen_iter MAZE_W MAZE_H (\<lambda>i. i) N s0 = Some s_end \<and> top_of s_end = 0) \<and>
      maze_generate MAZE_W MAZE_H (\<lambda>i. i) 0 (maze_init MAZE_W MAZE_H) 0 0 = Some (g', k') \<and>
      g' = clear_visited (grid s_end) \<and>
      wf_grid MAZE_W MAZE_H g' \<and>
      (\<forall>c. is_cell MAZE_W MAZE_H c \<longrightarrow> \<not> is_visited g' c) \<and>
      (\<forall>m n. m \<le> n \<longrightarrow>
         (\<exists>s s'. gen_iter MAZE_W MAZE_H (\<lambda>i. i) m s0 = Some s \<and>
            gen_iter MAZE_W MAZE_H (\<lambda>i. i) n s0 = Some s' \<and>
            (\<forall>c. is_cell MAZE_W MAZE_H c \<and> is_visited (grid s) c \<longrightarrow> is_visited (grid s') c))) \<and>
      (\<forall>m s c. gen_iter MAZE_W MAZE_H (\<lambda>i. i) m s0 = Some s \<and> is_cell MAZE_W MAZE_H c \<and>
         is_visited (grid s) c \<longrightarrow> is_visited (grid s_end) c))"
proof -
  have ib: "in_bounds 2 2 0 0" by (simp add: in_bounds_def)
  have ibm: "in_bounds MAZE_W MAZE_H 0 0" by (simp add: in_bounds_def MAZE_W_def MAZE_H_def)
  have c: "is_cell 2 2 (0, 0)" "is_cell 2 2 (1, 0)" by (simp_all add: is_cell_def in_bounds_def)
  have mk: "is_visited marked_grid (1, 0)"
    by (simp add: is_visited_def cell_at_def marked_grid_def)
  note small_inst = visited_flags[OF wf_marked_grid ib, of 0 "\<lambda>i. i"]
  then obtain s0 s_end g' k' where full:
    "gen_start 2 2 marked_grid 0 0 0 = Some s0 \<and>
     is_visited (grid s0) (0, 0) \<and>
     gen_loop 2 2 (\<lambda>i. i) s0 = Some s_end \<and>
     (\<exists>N. gen_iter 2 2 (\<lambda>i. i) N s0 = Some s_end \<and> top_of s_end = 0) \<and>
     maze_generate 2 2 (\<lambda>i. i) 0 marked_grid 0 0 = Some (g', k') \<and>
     g' = clear_visited (grid s_end) \<and>
     wf_grid 2 2 g' \<and>
     (\<forall>c. is_cell 2 2 c \<longrightarrow> \<not> is_visited g' c) \<and>
     (\<forall>m n. m \<le> n \<longrightarrow>
        (\<exists>s s'. gen_iter 2 2 (\<lambda>i. i) m s0 = Some s \<and> gen_iter 2 2 (\<lambda>i. i) n s0 = Some s' \<and>
           (\<forall>c. is_cell 2 2 c \<and> is_visited (grid s) c \<longrightarrow> is_visited (grid s') c))) \<and>
     (\<forall>m s c. gen_iter 2 2 (\<lambda>i. i) m s0 = Some s \<and> is_cell 2 2 c \<and> is_visited (grid s) c \<longrightarrow>
        is_visited (grid s_end) c)"
    by (elim exE) (rule that)
  note 1 = full[THEN conjunct1]
    full[THEN conjunct2, THEN conjunct1]
    full[THEN conjunct2, THEN conjunct2, THEN conjunct1]
    full[THEN conjunct2, THEN conjunct2, THEN conjunct2, THEN conjunct2, THEN conjunct1]
    full[THEN conjunct2, THEN conjunct2, THEN conjunct2, THEN conjunct2, THEN conjunct2,
      THEN conjunct1]
    full[THEN conjunct2, THEN conjunct2, THEN conjunct2, THEN conjunct2, THEN conjunct2,
      THEN conjunct2, THEN conjunct1]
    full[THEN conjunct2, THEN conjunct2, THEN conjunct2, THEN conjunct2, THEN conjunct2,
      THEN conjunct2, THEN conjunct2, THEN conjunct1]
    full[THEN conjunct2, THEN conjunct2, THEN conjunct2, THEN conjunct2, THEN conjunct2,
      THEN conjunct2, THEN conjunct2, THEN conjunct2, THEN conjunct2]
  have i0: "gen_iter 2 2 (\<lambda>i. i) 0 s0 = Some s0" by simp
  from 1(8)[rule_format, of 0 s0 "(0, 0)"] i0 c(1) 1(2)
  have e0: "is_visited (grid s_end) (0, 0)" by simp
  from 1(1) have "is_visited (grid s0) (1, 0)"
    by (auto simp: gen_start_def set_visited_def cell_get_def cell_set_def in_array_def
        cell_at_def is_visited_def marked_grid_def)
  with 1(8)[rule_format, of 0 s0 "(1, 0)"] i0 c(2)
  have e1: "is_visited (grid s_end) (1, 0)" by simp
  from 1(7)[rule_format, OF c(1)] 1(7)[rule_format, OF c(2)]
  have n: "\<not> is_visited g' (0, 0)" "\<not> is_visited g' (1, 0)" by simp_all
  from 1(1) 1(3) e0 e1 1(4) 1(5) 1(6) n have small: "\<exists>s0 s_end g' k'.
      gen_start 2 2 marked_grid 0 0 0 = Some s0 \<and>
      gen_loop 2 2 (\<lambda>i. i) s0 = Some s_end \<and>
      is_visited (grid s_end) (0, 0) \<and> is_visited (grid s_end) (1, 0) \<and>
      maze_generate 2 2 (\<lambda>i. i) 0 marked_grid 0 0 = Some (g', k') \<and>
      g' = clear_visited (grid s_end) \<and> wf_grid 2 2 g' \<and>
      \<not> is_visited g' (0, 0) \<and> \<not> is_visited g' (1, 0)"
    by blast
  note large = visited_flags[OF wf_maze_init ibm, of 0 "\<lambda>i. i"]
  from wf_marked_grid ib mk marked_maze_generated small large show ?thesis
    by (intro conjI)
qed

text \<open>
  Claim C6. In a grid with wall reciprocity, when \<open>try_move\<close> from a cell \<open>A\<close> in
  bounds with a step of one cell along one axis returns true and moves the player to
  \<open>B\<close>, \<open>try_move\<close> from \<open>B\<close> with the opposite step returns true and moves the
  player back to \<open>A\<close>.
\<close>

theorem try_move_symmetric:
  assumes "wf_grid W H g" "reciprocal W H g" "in_bounds W H ax ay" "unit_cardinal dx dy"
    and "try_move W H g ax ay dx dy = Some (True, bx, by)"
  shows "try_move W H g bx by (- dx) (- dy) = Some (True, ax, ay)"
proof -
  from assms(4) obtain d where d: "dx = dx_of d" "dy = dy_of d"
    by (auto simp: unit_cardinal_dir)
  have od: "- dx = dx_of (opposite d)" "- dy = dy_of (opposite d)"
    unfolding d by (cases d; simp)+
  from assms(3) have a: "is_cell W H (ax, ay)" by (simp add: is_cell_def)
  from assms(5) try_move_dir[OF assms(1) a, of d]
  have b: "is_cell W H (towards (ax, ay) d)" "\<not> has_wall g (ax, ay) d"
    "(bx, by) = towards (ax, ay) d"
    by (auto simp: d split: if_splits)
  from reciprocalD[OF assms(2) a b(1)] b(2)
  have "\<not> has_wall g (towards (ax, ay) d) (opposite d)" by simp
  with try_move_dir[OF assms(1) b(1), of "opposite d"] a
  have "try_move W H g (fst (towards (ax, ay) d)) (snd (towards (ax, ay) d))
          (dx_of (opposite d)) (dy_of (opposite d)) = Some (True, ax, ay)"
    by (simp add: towards_opposite)
  then show ?thesis unfolding od b(3)[symmetric] by simp
qed

theorem try_move_symmetric_witness:
  "try_move 2 2 tiny_maze 0 0 1 0 = Some (True, 1, 0) \<and>
   try_move 2 2 tiny_maze 1 0 (- 1) 0 = Some (True, 0, 0)"
proof -
  have ib: "in_bounds 2 2 0 0" by (simp add: in_bounds_def)
  have e: "unit_cardinal 1 0" by (simp add: unit_cardinal_def)
  have m: "try_move 2 2 tiny_maze 0 0 1 0 = Some (True, 1, 0)"
    by code_simp
  from m try_move_symmetric[OF wf_tiny_maze reciprocal_tiny_maze ib e m]
  show ?thesis by simp
qed

text \<open>
  Claim C7. In every maze that \<open>maze_generate\<close> returns, a finite list of directions
  leads from \<open>(0,0)\<close> to the goal \<open>(W - 1, H - 1)\<close>: \<open>try_move\<close> with the step of
  each direction in turn (one cell along one axis) returns true every time and ends on
  the goal; and the arrow keys of these directions, pressed in a session with that maze,
  the player on \<open>(0,0)\<close> and \<open>won\<close> false, leave the player on the goal with \<open>won\<close>
  set. The grid has more than one cell, as the grid of the program has.
\<close>

theorem goal_reachable:
  assumes "1 < W * H"
    and gen: "maze_generate W H rs k (maze_init W H) 0 0 = Some (g', k')"
  shows "\<exists>ds. (\<forall>d \<in> set ds. unit_cardinal (dx_of d) (dy_of d)) \<and>
           walk W H g' (0, 0) (map (\<lambda>d. (dx_of d, dy_of d)) ds) = Some (int W - 1, int H - 1) \<and>
           (\<forall>S. maze S = g' \<and> player_x S = 0 \<and> player_y S = 0 \<and> \<not> won S \<longrightarrow>
              (\<exists>S'. handle_events W H rs (map (\<lambda>d. SDL_KEYDOWN (arrow d)) ds) S = Some S' \<and>
                 maze S' = g' \<and> player_x S' = int W - 1 \<and> player_y S' = int H - 1 \<and> won S'))"
proof -
  from assms(1) have pos: "0 < W" "0 < H" by (auto intro: Nat.gr0I)
  then have c0: "is_cell W H (0, 0)" and cg: "is_cell W H (int W - 1, int H - 1)"
    by (simp_all add: is_cell_def in_bounds_def)
  from assms(1) have ne: "(0, 0) \<noteq> (int W - 1, int H - 1)"
    by (auto simp: nat_eq_iff)
  from maze_generate_correct[OF c0, of rs k] gen
  have wf: "wf_grid W H g'" and con: "connected_from W H g' (0, 0)"
    by auto
  from con cg have path: "(passage W H g')\<^sup>*\<^sup>* (0, 0) (int W - 1, int H - 1)"
    unfolding connected_from_def by blast
  from path_keys[OF wf path ne, of rs] obtain ds where
    w: "walk W H g' (0, 0) (map (\<lambda>d. (dx_of d, dy_of d)) ds) = Some (int W - 1, int H - 1)" and
    e: "\<And>S. maze S = g' \<and> (player_x S, player_y S) = (0, 0) \<and> \<not> won S \<Longrightarrow>
          \<exists>S'. handle_events W H rs (map (\<lambda>d. SDL_KEYDOWN (arrow d)) ds) S = Some S' \<and>
             maze S' = g' \<and>
             (if won S' then (player_x S', player_y S') = (int W - 1, int H - 1)
              else (player_x S', player_y S') = (int W - 1, int H - 1) \<and>
                   (int W - 1, int H - 1) \<noteq> (int W - 1, int H - 1))"
    by blast
  have "\<exists>S'. handle_events W H rs (map (\<lambda>d. SDL_KEYDOWN (arrow d)) ds) S = Some S' \<and>
                 maze S' = g' \<and> player_x S' = int W - 1 \<and> player_y S' = int H - 1 \<and> won S'"
    if S: "maze S = g' \<and> player_x S = 0 \<and> player_y S = 0 \<and> \<not> won S" for S
  proof -
    from S have "maze S = g' \<and> (player_x S, player_y S) = (0, 0) \<and> \<not> won S" by simp
    from e[OF this] obtain S' where
      "handle_events W H rs (map (\<lambda>d. SDL_KEYDOWN (arrow d)) ds) S = Some S'" "maze S' = g'"
      "if won S' then (player_x S', player_y S') = (int W - 1, int H - 1)
       else (player_x S', player_y S') = (int W - 1, int H - 1) \<and>
            (int W - 1, int H - 1) \<noteq> (int W - 1, int H - 1)"
      by blast
    then show ?thesis by (intro exI[of _ S']) (auto split: if_splits)
  qed
  with w unit_cardinal_of_dir show ?thesis by blast
qed

theorem goal_reachable_witness:
  "walk 2 2 tiny_maze (0, 0) [(1, 0), (0, 1)] = Some (1, 1) \<and>
   (\<exists>ds. walk 2 2 tiny_maze (0, 0) (map (\<lambda>d. (dx_of d, dy_of d)) ds) = Some (1, 1) \<and>
      (\<exists>S'. handle_events 2 2 (\<lambda>i. i) (map (\<lambda>d. SDL_KEYDOWN (arrow d)) ds)
           \<lparr>maze = tiny_maze, player_x = 0, player_y = 0, won = False, running = True,
            title = ''SDL2 Maze - Reach the green goal (R to regenerate)'', rand_calls = 3\<rparr>
           = Some S' \<and>
         maze S' = tiny_maze \<and> player_x S' = 1 \<and> player_y S' = 1 \<and> won S')) \<and>
   (\<exists>g' k' ds.
      maze_generate MAZE_W MAZE_H (\<lambda>i. i) 0 (maze_init MAZE_W MAZE_H) 0 0 = Some (g', k') \<and>
      walk MAZE_W MAZE_H g' (0, 0) (map (\<lambda>d. (dx_of d, dy_of d)) ds) = Some (20, 14))"
proof -
  have four: "1 < (2::nat) * 2" by simp
  from goal_reachable[OF four tiny_maze_generated] obtain ds where
    w: "walk 2 2 tiny_maze (0, 0) (map (\<lambda>d. (dx_of d, dy_of d)) ds) = Some (1, 1)" and
    e: "\<forall>S. maze S = tiny_maze \<and> player_x S = 0 \<and> player_y S = 0 \<and> \<not> won S \<longrightarrow>
          (\<exists>S'. handle_events 2 2 (\<lambda>i. i) (map (\<lambda>d. SDL_KEYDOWN (arrow d)) ds) S = Some S' \<and>
             maze S' = tiny_maze \<and> player_x S' = int 2 - 1 \<and> player_y S' = int 2 - 1 \<and> won S')"
    by auto
  have 1: "walk 2 2 tiny_maze (0, 0) [(1, 0), (0, 1)] = Some (1, 1)" by code_simp
  from e[rule_format,
      of "\<lparr>maze = tiny_maze, player_x = 0, player_y = 0, won = False, running = True,
         title = ''SDL2 Maze - Reach the green goal (R to regenerate)'', rand_calls = 3\<rparr>"]
  have "\<exists>S'. handle_events 2 2 (\<lambda>i. i) (map (\<lambda>d. SDL_KEYDOWN (arrow d)) ds)
           \<lparr>maze = tiny_maze, player_x = 0, player_y = 0, won = False, running = True,
            title = ''SDL2 Maze - Reach the green goal (R to regenerate)'', rand_calls = 3\<rparr>
           = Some S' \<and>
         maze S' = tiny_maze \<and> player_x S' = 1 \<and> player_y S' = 1 \<and> won S'"
    by simp
  with w have 2: "\<exists>ds. walk 2 2 tiny_maze (0, 0) (map (\<lambda>d. (dx_of d, dy_of d)) ds) = Some (1, 1) \<and>
      (\<exists>S'. handle_events 2 2 (\<lambda>i. i) (map (\<lambda>d. SDL_KEYDOWN (arrow d)) ds)
           \<lparr>maze = tiny_maze, player_x = 0, player_y = 0, won = False, running = True,
            title = ''SDL2 Maze - Reach the green goal (R to regenerate)'', rand_calls = 3\<rparr>
           = Some S' \<and>
         maze S' = tiny_maze \<and> player_x S' = 1 \<and> player_y S' = 1 \<and> won S')"
    by blast
  have big: "1 < MAZE_W * MAZE_H" and pos: "0 < MAZE_W" "0 < MAZE_H"
    by (simp_all add: MAZE_W_def MAZE_H_def)
  from maze_generate_returns[OF pos, of "\<lambda>i. i" 0] obtain g' k' where
    mg: "maze_generate MAZE_W MAZE_H (\<lambda>i. i) 0 (maze_init MAZE_W MAZE_H) 0 0 = Some (g', k')"
    by blast
  from goal_reachable[OF big mg] obtain es where
    "walk MAZE_W MAZE_H g' (0, 0) (map (\<lambda>d. (dx_of d, dy_of d)) es)
       = Some (int MAZE_W - 1, int MAZE_H - 1)"
    by blast
  then have "walk MAZE_W MAZE_H g' (0, 0) (map (\<lambda>d. (dx_of d, dy_of d)) es) = Some (20, 14)"
    by (simp add: MAZE_W_def MAZE_H_def)
  with mg have 3: "\<exists>g' k' ds.
      maze_generate MAZE_W MAZE_H (\<lambda>i. i) 0 (maze_init MAZE_W MAZE_H) 0 0 = Some (g', k') \<and>
      walk MAZE_W MAZE_H g' (0, 0) (map (\<lambda>d. (dx_of d, dy_of d)) ds) = Some (20, 14)"
    by blast
  from 1 2 3 show ?thesis by blast
qed

text \<open>
  Claim C8. The \<open>R\<close> key, pressed in any state of the session (\<open>won\<close> set or not),
  yields the state whose grid is the one \<open>maze_generate(0, 0)\<close> carves in a
  \<open>maze_init\<close> grid, whose player is on \<open>(0,0)\<close> and whose \<open>won\<close> is false. The
  grid has more than one cell, as the grid of the program has (\<open>21 * 15\<close> cells): in
  a grid of one cell the start is the goal.
\<close>

theorem regenerate_event:
  assumes "1 < W * H"
  shows "\<exists>g' k'. maze_generate W H rs (rand_calls S) (maze_init W H) 0 0 = Some (g', k') \<and>
           handle_event W H rs (SDL_KEYDOWN SDLK_r) S =
             Some (S\<lparr>maze := g', rand_calls := k', player_x := 0, player_y := 0,
                     title := ''SDL2 Maze - Reach the green goal (R to regenerate)'',
                     won := False\<rparr>)"
proof -
  from assms have "0 < W" "0 < H" by (auto intro: Nat.gr0I)
  then have "is_cell W H (0, 0)" by (simp add: is_cell_def in_bounds_def)
  from maze_generate_correct[OF this, of rs "rand_calls S"] obtain g' k' where
    mg: "maze_generate W H rs (rand_calls S) (maze_init W H) 0 0 = Some (g', k')"
    by blast
  from assms have ng: "\<not> (0 = int W - 1 \<and> 0 = int H - 1)"
    by (auto simp: nat_eq_iff)
  have "handle_event W H rs (SDL_KEYDOWN SDLK_r) S =
             Some (S\<lparr>maze := g', rand_calls := k', player_x := 0, player_y := 0,
                     title := ''SDL2 Maze - Reach the green goal (R to regenerate)'',
                     won := False\<rparr>)"
    using ng by (simp add: handle_event_def regenerate_def mg)
  with mg show ?thesis by blast
qed

theorem regenerate_event_witness:
  "handle_event 2 2 (\<lambda>i. i) (SDL_KEYDOWN SDLK_r)
     \<lparr>maze = maze_init 2 2, player_x = 1, player_y = 1, won = True, running = True,
      title = ''You win! Press R to regenerate, Esc to quit'', rand_calls = 0\<rparr>
   = Some \<lparr>maze = tiny_maze, player_x = 0, player_y = 0, won = False, running = True,
      title = ''SDL2 Maze - Reach the green goal (R to regenerate)'', rand_calls = 3\<rparr> \<and>
   1 < MAZE_W * MAZE_H \<and>
   (\<exists>g' k'.
      maze_generate MAZE_W MAZE_H (\<lambda>i. i) 0 (maze_init MAZE_W MAZE_H) 0 0 = Some (g', k') \<and>
      handle_event MAZE_W MAZE_H (\<lambda>i. i) (SDL_KEYDOWN SDLK_r)
        \<lparr>maze = maze_init MAZE_W MAZE_H, player_x = 20, player_y = 14, won = True,
         running = True, title = ''You win! Press R to regenerate, Esc to quit'',
         rand_calls = 0\<rparr>
      = Some \<lparr>maze = g', player_x = 0, player_y = 0, won = False, running = True,
         title = ''SDL2 Maze - Reach the green goal (R to regenerate)'', rand_calls = k'\<rparr>)"
proof -
  have big: "1 < MAZE_W * MAZE_H" by (simp add: MAZE_W_def MAZE_H_def)
  have four: "1 < (2::nat) * 2" by simp
  note small = regenerate_event[OF four, of "\<lambda>i. i"
      "\<lparr>maze = maze_init 2 2, player_x = 1, player_y = 1, won = True, running = True,
      title = ''You win! Press R to regenerate, Esc to quit'', rand_calls = 0\<rparr>"]
  note large = regenerate_event[OF big, of "\<lambda>i. i"
      "\<lparr>maze = maze_init MAZE_W MAZE_H, player_x = 20, player_y = 14, won = True,
         running = True, title = ''You win! Press R to regenerate, Esc to quit'',
         rand_calls = 0\<rparr>"]
  from small have 1: "handle_event 2 2 (\<lambda>i. i) (SDL_KEYDOWN SDLK_r)
     \<lparr>maze = maze_init 2 2, player_x = 1, player_y = 1, won = True, running = True,
      title = ''You win! Press R to regenerate, Esc to quit'', rand_calls = 0\<rparr>
   = Some \<lparr>maze = tiny_maze, player_x = 0, player_y = 0, won = False, running = True,
      title = ''SDL2 Maze - Reach the green goal (R to regenerate)'', rand_calls = 3\<rparr>"
    by (simp add: tiny_maze_generated)
  from large have 2: "\<exists>g' k'.
      maze_generate MAZE_W MAZE_H (\<lambda>i. i) 0 (maze_init MAZE_W MAZE_H) 0 0 = Some (g', k') \<and>
      handle_event MAZE_W MAZE_H (\<lambda>i. i) (SDL_KEYDOWN SDLK_r)
        \<lparr>maze = maze_init MAZE_W MAZE_H, player_x = 20, player_y = 14, won = True,
         running = True, title = ''You win! Press R to regenerate, Esc to quit'',
         rand_calls = 0\<rparr>
      = Some \<lparr>maze = g', player_x = 0, player_y = 0, won = False, running = True,
         title = ''SDL2 Maze - Reach the green goal (R to regenerate)'', rand_calls = k'\<rparr>"
    by simp
  from 1 big 2 show ?thesis by blast
qed

text \<open>
  Claim C9. For a player in bounds and a step that is not one cell along one axis, such
  as \<open>(1, 1)\<close> or \<open>(0, 0)\<close>, whose target is in bounds, \<open>try_move\<close> tests no wall:
  it returns true and puts the player on the target.
\<close>

theorem try_move_not_cardinal:
  assumes "wf_grid W H g" "in_bounds W H px py" "\<not> unit_cardinal dx dy"
    and "in_bounds W H (px + dx) (py + dy)"
  shows "try_move W H g px py dx dy = Some (True, px + dx, py + dy)"
proof -
  from assms(1,2) have "cell_get g px py = Some (cell_at g px py)"
    by (simp add: cell_get_def wf_in_array)
  with assms(3,4) show ?thesis
    by (auto simp: try_move_def Let_def unit_cardinal_def)
qed

theorem try_move_not_cardinal_witness:
  "try_move 2 2 tiny_maze 0 0 1 1 = Some (True, 1, 1) \<and>
   try_move 2 2 tiny_maze 0 0 0 0 = Some (True, 0, 0) \<and>
   try_move 2 2 (maze_init 2 2) 1 1 (- 1) (- 1) = Some (True, 0, 0)"
proof -
  have ib: "in_bounds 2 2 0 0" "in_bounds 2 2 1 1" "in_bounds 2 2 (0 + 1) (0 + 1)"
    "in_bounds 2 2 (0 + 0) (0 + 0)" "in_bounds 2 2 (1 + - 1) (1 + - 1)"
    by (simp_all add: in_bounds_def)
  have nc: "\<not> unit_cardinal 1 1" "\<not> unit_cardinal 0 0" "\<not> unit_cardinal (- 1) (- 1)"
    by (simp_all add: unit_cardinal_def)
  from try_move_not_cardinal[OF wf_tiny_maze ib(1) nc(1) ib(3)]
    try_move_not_cardinal[OF wf_tiny_maze ib(1) nc(2) ib(4)]
    try_move_not_cardinal[OF wf_maze_init ib(2) nc(3) ib(5)]
  show ?thesis by simp
qed

text \<open>
  Claim C10. For two cells of the grid that are not adjacent along one axis,
  \<open>knock_down\<close> returns the grid as it was: it takes no branch, so it writes no cell and
  reads none. Both cells are in bounds, and \<open>W\<close> and \<open>H\<close> are values of C
  \<open>int\<close> macros, so \<open>x + 1\<close>, \<open>x - 1\<close>, \<open>y + 1\<close> and \<open>y - 1\<close> in the tests of
  \<open>knock_down\<close> do not overflow.
\<close>

theorem knock_down_not_adjacent:
  assumes "in_bounds W H x y" "in_bounds W H nx ny" "\<not> unit_cardinal (nx - x) (ny - y)"
  shows "knock_down g x y nx ny = Some g"
  using assms(3) by (auto simp: knock_down_def unit_cardinal_def)

theorem knock_down_not_adjacent_witness:
  "knock_down (maze_init 2 2) 0 0 1 1 = Some (maze_init 2 2) \<and>
   knock_down (maze_init 2 2) 0 0 0 0 = Some (maze_init 2 2) \<and>
   knock_down tiny_maze 1 0 0 1 = Some tiny_maze \<and>
   knock_down (maze_init MAZE_W MAZE_H) 3 4 5 4 = Some (maze_init MAZE_W MAZE_H) \<and>
   knock_down (maze_init MAZE_W MAZE_H) 0 0 20 14 = Some (maze_init MAZE_W MAZE_H)"
proof -
  have s: "in_bounds 2 2 0 0" "in_bounds 2 2 1 1" "in_bounds 2 2 1 0" "in_bounds 2 2 0 1"
    by (simp_all add: in_bounds_def)
  have m: "in_bounds MAZE_W MAZE_H 3 4" "in_bounds MAZE_W MAZE_H 5 4"
    "in_bounds MAZE_W MAZE_H 0 0" "in_bounds MAZE_W MAZE_H 20 14"
    by (simp_all add: in_bounds_def MAZE_W_def MAZE_H_def)
  have n: "\<not> unit_cardinal (1 - 0) (1 - 0)" "\<not> unit_cardinal (0 - 0) (0 - 0)"
    "\<not> unit_cardinal (0 - 1) (1 - 0)" "\<not> unit_cardinal (5 - 3) (4 - 4)"
    "\<not> unit_cardinal (20 - 0) (14 - 0)"
    by (simp_all add: unit_cardinal_def)
  from knock_down_not_adjacent[OF s(1) s(2) n(1)]
    knock_down_not_adjacent[OF s(1) s(1) n(2)]
    knock_down_not_adjacent[OF s(3) s(4) n(3)]
    knock_down_not_adjacent[OF m(1) m(2) n(4)]
    knock_down_not_adjacent[OF m(3) m(4) n(5)]
  show ?thesis by simp
qed

end
